theory Spec2Isabelle
  imports Complex_Main "HOL-Library.Multiset"
begin

section \<open>Data model (src/types.ts)\<close>

text \<open>
  JavaScript numbers that carry durations and times are modelled as exact rationals
  (\<open>rat\<close>); counts and indices are natural numbers. Every concrete input evaluated
  below uses values on which IEEE double arithmetic is exact, or is followed by a clamp
  that makes the rounding irrelevant. A thrown exception is the \<open>Inl\<close> branch of a
  sum; \<open>Error\<close> carries the message of \<open>new Error(msg)\<close>, \<open>TypeError\<close> is what the
  runtime raises when a method is called on \<open>undefined\<close>, \<open>ThrownUndefined\<close> is
  \<open>throw undefined\<close>.
\<close>

datatype js_error = Error string | TypeError string | ThrownUndefined

record ImageInput =
  path :: string
  room :: "string option"
  captureTime :: "int option"

datatype SceneType = Veo | KenBurns

text \<open>
  A Scene. The fields \<open>description\<close> and \<open>focusPoints\<close> of the source are static
  text looked up from the room name; no operation of the planner reads them and they
  are left out.
\<close>

record Scene =
  scene_id :: string
  scene_room :: string
  images :: "ImageInput list"
  duration :: rat
  scene_type :: SceneType

record ScenePlan =
  scenes :: "Scene list"
  totalDuration :: rat
  veoSegments :: nat
  kenBurnsSegments :: nat

record OutputConfig =
  targetSeconds :: rat

record ScenePlannerOptions =
  preferVeoOverKenBurns :: bool
  maxVeoSegments :: nat
  minSegmentDuration :: rat
  maxSegmentDuration :: rat
  crossfadeDuration :: rat

record TimingConstraints =
  targetDuration :: rat
  availableContentTime :: rat
  idealSegmentDuration :: rat
  tc_maxVeoSegments :: nat
  crossfadeTime :: rat
  roomCount :: nat

text \<open>The defaults filled in by the constructor of ScenePlanner.\<close>

definition defaultOptions :: ScenePlannerOptions where
  "defaultOptions =
     \<lparr> preferVeoOverKenBurns = True, maxVeoSegments = 15, minSegmentDuration = 4,
       maxSegmentDuration = 8, crossfadeDuration = 3 / 4 \<rparr>"

section \<open>Scene planner (src/pipeline/scene-plan.ts)\<close>

subsection \<open>The room map\<close>

text \<open>
  A JavaScript \<open>Map\<close> keeps its keys in insertion order; it is an association list
  with distinct keys. \<open>set\<close> on a present key replaces the value in place, on a new key
  appends; \<open>get\<close> is \<open>map_of\<close>; \<open>size\<close> is the length.
\<close>

type_synonym RoomGroups = "(string \<times> ImageInput list) list"

fun map_set :: "string \<Rightarrow> ImageInput list \<Rightarrow> RoomGroups \<Rightarrow> RoomGroups" where
  "map_set k v [] = [(k, v)]"
| "map_set k v ((k', v') # g) =
     (if k = k' then (k, v) # g else (k', v') # map_set k v g)"

definition map_delete :: "string \<Rightarrow> RoomGroups \<Rightarrow> RoomGroups" where
  "map_delete k g = filter (\<lambda>(k', v). k' \<noteq> k) g"

text \<open>
  \<open>roomGroups.get(k)!.push(x)\<close>: the array stored under \<open>k\<close> grows by one element;
  when the key is absent \<open>get\<close> yields \<open>undefined\<close> and \<open>push\<close> raises.
\<close>

definition push_to :: "string \<Rightarrow> ImageInput \<Rightarrow> RoomGroups \<Rightarrow> js_error + RoomGroups" where
  "push_to k x g =
     (case map_of g k of
        None \<Rightarrow> Inl (TypeError ''Cannot read properties of undefined (reading push)'')
      | Some v \<Rightarrow> Inr (map_set k (v @ [x]) g))"

definition roomOrder :: "string list" where
  "roomOrder = [''exterior'', ''entry'', ''living'', ''kitchen'', ''bedroom'',
                ''bathroom'', ''backyard'']"

text \<open>\<open>image.room || 'other'\<close>: a missing or empty room name is falsy.\<close>

definition roomOrOther :: "ImageInput \<Rightarrow> string" where
  "roomOrOther img =
     (case room img of None \<Rightarrow> ''other'' | Some r \<Rightarrow> if r = [] then ''other'' else r)"

text \<open>The loop \<open>for (const image of images)\<close> of groupImagesByRoom.\<close>

fun groupLoop :: "ImageInput list \<Rightarrow> RoomGroups \<Rightarrow> js_error + RoomGroups" where
  "groupLoop [] g = Inr g"
| "groupLoop (img # rest) g =
     (let r = roomOrOther img;
          key = (if map_of g r \<noteq> None then r else ''other'')
      in case push_to key img g of
           Inl e \<Rightarrow> Inl e
         | Inr g' \<Rightarrow> groupLoop rest g')"

definition groupLen :: "RoomGroups \<Rightarrow> string \<Rightarrow> nat" where
  "groupLen g r = (case map_of g r of None \<Rightarrow> 0 | Some v \<Rightarrow> length v)"

text \<open>
  redistributeOtherImages. \<open>sortedRooms\<close> holds the entries of the map by reference, so
  the length it sorts by is the current length of the group in the map; it is kept here
  as the list of room names. \<open>Array.prototype.sort\<close> is stable, as \<open>sort_key\<close> is.
\<close>

fun redistLoop :: "ImageInput list \<Rightarrow> string list \<Rightarrow> RoomGroups \<Rightarrow> js_error + RoomGroups" where
  "redistLoop [] sortedRooms g = Inr g"
| "redistLoop (img # rest) sortedRooms g =
     (case sortedRooms of
        targetRoom # others \<Rightarrow>
          (case push_to targetRoom img g of
             Inl e \<Rightarrow> Inl e
           | Inr g' \<Rightarrow> redistLoop rest (sort_key (groupLen g') sortedRooms) g')
      | [] \<Rightarrow>
          (let g1 = (if map_of g ''living'' = None then map_set ''living'' [] g else g)
           in case push_to ''living'' img g1 of
                Inl e \<Rightarrow> Inl e
              | Inr g' \<Rightarrow> redistLoop rest [] g'))"

definition redistributeOtherImages :: "ImageInput list \<Rightarrow> RoomGroups \<Rightarrow> js_error + RoomGroups" where
  "redistributeOtherImages otherImages g =
     redistLoop otherImages
       (sort_key (groupLen g)
          (map fst (filter (\<lambda>(r, imgs). r \<noteq> ''other'' \<and> imgs \<noteq> []) g))) g"

text \<open>The map after \<open>roomOrder.forEach(room => roomGroups.set(room, []))\<close> and
  \<open>roomGroups.set('other', [])\<close>.\<close>

definition initialGroups :: RoomGroups where
  "initialGroups = map (\<lambda>r. (r, [])) roomOrder @ [(''other'', [])]"

text \<open>The loop that deletes every empty group except \<open>'other'\<close>.\<close>

definition removeEmptyGroups :: "RoomGroups \<Rightarrow> RoomGroups" where
  "removeEmptyGroups g = filter (\<lambda>(r, grp). \<not> (grp = [] \<and> r \<noteq> ''other'')) g"

definition groupImagesByRoom :: "ImageInput list \<Rightarrow> js_error + RoomGroups" where
  "groupImagesByRoom imgs =
     (case groupLoop imgs initialGroups of
        Inl e \<Rightarrow> Inl e
      | Inr g1 \<Rightarrow>
          (let g2 = removeEmptyGroups g1;
               otherImages = (case map_of g2 ''other'' of None \<Rightarrow> [] | Some v \<Rightarrow> v)
           in if otherImages \<noteq> []
              then (case redistributeOtherImages otherImages g2 of
                      Inl e \<Rightarrow> Inl e
                    | Inr g3 \<Rightarrow> Inr (map_delete ''other'' g3))
              else Inr g2))"

subsection \<open>Timing\<close>

definition calculateTiming :: "ScenePlannerOptions \<Rightarrow> OutputConfig \<Rightarrow> nat \<Rightarrow> TimingConstraints" where
  "calculateTiming opts outputConfig rc =
     (let estimatedSegments = min (of_nat rc + 2) (of_nat (maxVeoSegments opts) * (3 / 2));
          cft = max 0 (estimatedSegments - 1) * crossfadeDuration opts;
          act = targetSeconds outputConfig - cft;
          ideal = max (minSegmentDuration opts)
                      (min (maxSegmentDuration opts) (act / of_nat rc))
      in \<lparr> targetDuration = targetSeconds outputConfig, availableContentTime = act,
           idealSegmentDuration = ideal, tc_maxVeoSegments = maxVeoSegments opts,
           crossfadeTime = cft, roomCount = rc \<rparr>)"

subsection \<open>Scene creation\<close>

fun digit_str :: "nat \<Rightarrow> string" where
  "digit_str n =
     (if n < 10 then [char_of (48 + n)] else digit_str (n div 10) @ [char_of (48 + n mod 10)])"

declare digit_str.simps [simp del]

text \<open>\<open>Math.ceil(a / b)\<close> on positive counts.\<close>

definition ceil_div :: "nat \<Rightarrow> nat \<Rightarrow> nat" where
  "ceil_div a b = (a + b - 1) div b"

definition createRoomScenes :: "string \<Rightarrow> ImageInput list \<Rightarrow> TimingConstraints \<Rightarrow> Scene list" where
  "createRoomScenes rm imgs timing =
     (if length imgs > 4 \<and> rm \<noteq> ''exterior''
      then (let scenesNeeded = ceil_div (length imgs) 3;
                imagesPerScene = ceil_div (length imgs) scenesNeeded
            in map (\<lambda>i. \<lparr> scene_id = rm @ ''_'' @ digit_str (i + 1), scene_room = rm,
                          images = take imagesPerScene (drop (i * imagesPerScene) imgs),
                          duration = idealSegmentDuration timing, scene_type = Veo \<rparr>)
                   [0 ..< scenesNeeded])
      else [\<lparr> scene_id = rm, scene_room = rm, images = imgs,
              duration = idealSegmentDuration timing, scene_type = Veo \<rparr>])"

fun createScenes :: "RoomGroups \<Rightarrow> TimingConstraints \<Rightarrow> Scene list" where
  "createScenes [] timing = []"
| "createScenes ((rm, imgs) # rest) timing =
     (if imgs = [] then createScenes rest timing
      else createRoomScenes rm imgs timing @ createScenes rest timing)"

subsection \<open>Optimisation\<close>

definition veoPriority :: "string list" where
  "veoPriority = [''exterior'', ''living'', ''kitchen'', ''bedroom'', ''entry'',
                  ''bathroom'', ''backyard'']"

fun indexOf :: "string list \<Rightarrow> string \<Rightarrow> nat option" where
  "indexOf [] x = None"
| "indexOf (y # ys) x =
     (if x = y then Some 0 else map_option Suc (indexOf ys x))"

text \<open>The sort key \<open>(p === -1 ? 999 : p)\<close> of optimizeScenes.\<close>

definition priorityOf :: "Scene \<Rightarrow> nat" where
  "priorityOf s = (case indexOf veoPriority (scene_room s) of None \<Rightarrow> 999 | Some p \<Rightarrow> p)"

text \<open>
  First pass of optimizeScenes: the loop over the sorted scenes, carrying
  \<open>veoSegmentsUsed\<close> and \<open>totalDuration\<close>.
\<close>

fun assignTypes :: "ScenePlannerOptions \<Rightarrow> nat \<Rightarrow> Scene list \<Rightarrow> nat \<Rightarrow> rat \<Rightarrow> Scene list \<times> rat" where
  "assignTypes opts maxVeo [] used totalDur = ([], totalDur)"
| "assignTypes opts maxVeo (s # rest) used totalDur =
     (if used < maxVeo \<and> preferVeoOverKenBurns opts
      then (let s' = s\<lparr> scene_type := Veo \<rparr>;
                (rest', totalDur') = assignTypes opts maxVeo rest (used + 1) (totalDur + duration s')
            in (s' # rest', totalDur'))
      else (let s' = s\<lparr> scene_type := KenBurns, duration := min (duration s) 6 \<rparr>;
                (rest', totalDur') = assignTypes opts maxVeo rest used (totalDur + duration s')
            in (s' # rest', totalDur')))"

definition adjustSceneDurations :: "Scene list \<Rightarrow> rat \<Rightarrow> Scene list" where
  "adjustSceneDurations scs target =
     (let currentDuration = sum_list (map duration scs);
          adjustmentFactor = target / currentDuration
      in map (\<lambda>s. let newDuration = duration s * adjustmentFactor
                  in if scene_type s = Veo
                     then s\<lparr> duration := max 4 (min 8 newDuration) \<rparr>
                     else s\<lparr> duration := max 3 (min 10 newDuration) \<rparr>) scs)"

definition addFillerScenes :: "Scene list \<Rightarrow> rat \<Rightarrow> Scene list" where
  "addFillerScenes scs additionalTime =
     (case filter (\<lambda>s. length (images s) > 1) scs of
        [] \<Rightarrow> scs
      | sourceScene # others \<Rightarrow>
          if additionalTime > 3
          then scs @ [\<lparr> scene_id = scene_id sourceScene @ ''_filler'',
                        scene_room = scene_room sourceScene,
                        images = [last (images sourceScene)],
                        duration = min additionalTime 6, scene_type = KenBurns \<rparr>]
          else scs)"

text \<open>
  optimizeScenes. The local \<open>totalDuration\<close> is the sum accumulated by the first pass;
  the second pass does not update it, and the third pass compares that same value.
\<close>

definition optimizeScenes :: "ScenePlannerOptions \<Rightarrow> Scene list \<Rightarrow> TimingConstraints \<Rightarrow> Scene list" where
  "optimizeScenes opts scs timing =
     (let sortedScenes = sort_key priorityOf scs;
          (typed, totalDur) = assignTypes opts (tc_maxVeoSegments timing) sortedScenes 0 0;
          adjusted = (if totalDur \<noteq> availableContentTime timing
                      then adjustSceneDurations typed (availableContentTime timing)
                      else typed)
      in if totalDur < availableContentTime timing * (95 / 100)
         then addFillerScenes adjusted (availableContentTime timing - totalDur)
         else adjusted)"

definition buildScenePlan :: "Scene list \<Rightarrow> ScenePlan" where
  "buildScenePlan scs =
     \<lparr> scenes = scs,
       totalDuration = sum_list (map duration scs),
       veoSegments = length (filter (\<lambda>s. scene_type s = Veo) scs),
       kenBurnsSegments = length (filter (\<lambda>s. scene_type s = KenBurns) scs) \<rparr>"

definition planScenes :: "ScenePlannerOptions \<Rightarrow> ImageInput list \<Rightarrow> OutputConfig \<Rightarrow> js_error + ScenePlan" where
  "planScenes opts imgs outputConfig =
     (case groupImagesByRoom imgs of
        Inl e \<Rightarrow> Inl e
      | Inr roomGroups \<Rightarrow>
          (let timing = calculateTiming opts outputConfig (length roomGroups);
               scs = createScenes roomGroups timing
           in Inr (buildScenePlan (optimizeScenes opts scs timing))))"

text \<open>The images held by the groups other than \<open>'other'\<close>.\<close>

definition nonOther :: "RoomGroups \<Rightarrow> ImageInput multiset" where
  "nonOther g = mset (concat (map snd (map_delete ''other'' g)))"

text \<open>
  What addFillerScenes appends to a list of scenes, when it appends: a pan-zoom scene
  holding the last image of the first scene that has more than one image.
\<close>

definition isFillerOf :: "Scene list \<Rightarrow> Scene \<Rightarrow> bool" where
  "isFillerOf scs f =
     (case filter (\<lambda>s. length (images s) > 1) scs of
        [] \<Rightarrow> False
      | sourceScene # others \<Rightarrow>
          scene_id f = scene_id sourceScene @ ''_filler'' \<and>
          scene_room f = scene_room sourceScene \<and>
          images f = [last (images sourceScene)] \<and>
          scene_type f = KenBurns)"

section \<open>Render job controller (VeoClient)\<close>

record VeoVideo =
  gcsUri :: "string option"

record VeoPrediction =
  videoUri :: "string option"
  video_gcsUri :: "string option"

record VeoResponse =
  videos :: "VeoVideo list option"
  predictions :: "VeoPrediction list option"

record VeoOpError =
  code :: int
  message :: string

record VeoOperation =
  op_name :: string
  op_done :: "bool option"
  op_response :: "VeoResponse option"
  op_error :: "VeoOpError option"

record VeoParams =
  vp_duration :: rat

record VeoResult =
  videoPath :: string
  lastFramePath :: string
  vr_duration :: rat

text \<open>
  What \<open>await fetch(...)\<close> can do: reject, resolve with \<open>ok = false\<close> (status and
  body text), or resolve with a parsed body.
\<close>

datatype 'a fetch_result = FetchRejected js_error | HttpNotOk nat string | HttpOk 'a

text \<open>
  The world outside the client. \<open>submitResponse k\<close> is what the service answers to the
  k-th submission request, \<open>pollResponse k\<close> what it answers to the k-th status query,
  \<open>jitter k\<close> the value of \<open>Math.random() * 1000\<close> drawn after the k-th query.
  \<open>download\<close> is downloadFromGcs (its failure includes the rejection of a malformed
  URI), \<open>extractLastFrame\<close> the frame extraction.
\<close>

record VeoEnv =
  auth :: "js_error + string"
  submitResponse :: "nat \<Rightarrow> VeoOperation fetch_result"
  pollResponse :: "nat \<Rightarrow> VeoOperation fetch_result"
  jitter :: "nat \<Rightarrow> rat"
  download :: "string \<Rightarrow> js_error option"
  extractLastFrame :: "js_error + string"
  veoOutputPath :: string

text \<open>What a call of the client did: submissions sent, status queries sent, and the
  delays slept between queries, in order (milliseconds).\<close>

record VeoTrace =
  submissions :: nat
  polls :: nat
  delays :: "rat list"

text \<open>\<open>Math.min(1000 * Math.pow(1.5, attempts), 30000)\<close>.\<close>

definition baseDelay :: "nat \<Rightarrow> rat" where
  "baseDelay attempts = min (1000 * (3 / 2) ^ attempts) 30000"

function pollLoop ::
  "(nat \<Rightarrow> VeoOperation fetch_result) \<Rightarrow> (nat \<Rightarrow> rat) \<Rightarrow> nat \<Rightarrow> nat \<Rightarrow> rat list \<Rightarrow>
   (js_error + VeoOperation) \<times> nat \<times> rat list" where
  "pollLoop fetch jit maxAttempts attempts ds =
     (if attempts < maxAttempts
      then (case fetch (attempts + 1) of
              FetchRejected e \<Rightarrow> (Inl e, attempts + 1, ds)
            | HttpNotOk status body \<Rightarrow>
                (Inl (Error (''Failed to poll operation: '' @ digit_str status)), attempts + 1, ds)
            | HttpOk operation \<Rightarrow>
                if op_done operation = Some True
                then (case op_error operation of
                        Some err \<Rightarrow>
                          (Inl (Error (''Veo generation failed: '' @ message err)), attempts + 1, ds)
                      | None \<Rightarrow> (Inr operation, attempts + 1, ds))
                else pollLoop fetch jit maxAttempts (attempts + 1)
                       (ds @ [baseDelay (attempts + 1) + jit (attempts + 1)]))
      else (Inl (Error ''Veo operation timed out''), attempts, ds))"
  by pat_completeness auto
termination
  by (relation "measure (\<lambda>(fetch, jit, maxAttempts, attempts, ds). maxAttempts - attempts)") auto

declare pollLoop.simps [simp del]

text \<open>pollOperation: the result, the number of status queries made, the delays slept.\<close>

definition pollOperation ::
  "(nat \<Rightarrow> VeoOperation fetch_result) \<Rightarrow> (nat \<Rightarrow> rat) \<Rightarrow> nat \<Rightarrow>
   (js_error + VeoOperation) \<times> nat \<times> rat list" where
  "pollOperation fetch jit maxAttempts = pollLoop fetch jit maxAttempts 0 []"

text \<open>A string is truthy when it is present and not empty.\<close>

definition truthy :: "string option \<Rightarrow> bool" where
  "truthy s = (case s of None \<Rightarrow> False | Some x \<Rightarrow> x \<noteq> [])"

text \<open>\<open>xs?.[0]\<close> on an optional array of objects.\<close>

definition firstOf :: "'a list option \<Rightarrow> 'a option" where
  "firstOf xs = (case xs of None \<Rightarrow> None | Some [] \<Rightarrow> None | Some (x # rest) \<Rightarrow> Some x)"

definition fetchClip :: "VeoEnv \<Rightarrow> string \<Rightarrow> VeoParams \<Rightarrow> js_error + VeoResult" where
  "fetchClip env videoGcsUri params =
     (case download env videoGcsUri of
        Some e \<Rightarrow> Inl e
      | None \<Rightarrow>
          (case extractLastFrame env of
             Inl e \<Rightarrow> Inl e
           | Inr frame \<Rightarrow>
               Inr \<lparr> videoPath = veoOutputPath env, lastFramePath = frame,
                     vr_duration = vp_duration params \<rparr>))"

definition processResult :: "VeoEnv \<Rightarrow> VeoOperation \<Rightarrow> VeoParams \<Rightarrow> js_error + VeoResult" where
  "processResult env operation params =
     (case firstOf (case op_response operation of None \<Rightarrow> None | Some r \<Rightarrow> videos r) of
        Some video \<Rightarrow>
          if truthy (gcsUri video) then fetchClip env (the (gcsUri video)) params
          else Inl (Error ''No video GCS URI in Veo response'')
      | None \<Rightarrow>
          (case firstOf (case op_response operation of None \<Rightarrow> None | Some r \<Rightarrow> predictions r) of
             Some prediction \<Rightarrow>
               if truthy (videoUri prediction)
               then fetchClip env (the (videoUri prediction)) params
               else if truthy (video_gcsUri prediction)
               then fetchClip env (the (video_gcsUri prediction)) params
               else Inl (Error ''No video URI in Veo response'')
           | None \<Rightarrow> Inl (Error ''No videos or predictions in Veo response'')))"

text \<open>
  generateClip: one submission request, then pollOperation with the default of 60
  attempts, then processResult. The submission is a single \<open>fetch\<close>; withRetry is not
  called here or anywhere else in the client.
\<close>

definition generateClip :: "VeoEnv \<Rightarrow> VeoParams \<Rightarrow> (js_error + VeoResult) \<times> VeoTrace" where
  "generateClip env params =
     (case auth env of
        Inl e \<Rightarrow> (Inl e, \<lparr> submissions = 0, polls = 0, delays = [] \<rparr>)
      | Inr token \<Rightarrow>
          (case submitResponse env 1 of
             FetchRejected e \<Rightarrow> (Inl e, \<lparr> submissions = 1, polls = 0, delays = [] \<rparr>)
           | HttpNotOk status body \<Rightarrow>
               (Inl (Error (''Veo API request failed: '' @ digit_str status @ '' '' @ body)),
                \<lparr> submissions = 1, polls = 0, delays = [] \<rparr>)
           | HttpOk operation \<Rightarrow>
               (case pollOperation (pollResponse env) (jitter env) 60 of
                  (Inl e, n, ds) \<Rightarrow> (Inl e, \<lparr> submissions = 1, polls = n, delays = ds \<rparr>)
                | (Inr result, n, ds) \<Rightarrow>
                    (processResult env result params,
                     \<lparr> submissions = 1, polls = n, delays = ds \<rparr>))))"

subsection \<open>withRetry\<close>

text \<open>\<open>s.includes(sub)\<close>.\<close>

fun str_includes :: "string \<Rightarrow> string \<Rightarrow> bool" where
  "str_includes [] sub = (sub = [])"
| "str_includes (c # cs) sub = (take (length sub) (c # cs) = sub \<or> str_includes cs sub)"

definition errorMessage :: "js_error \<Rightarrow> string option" where
  "errorMessage e = (case e of Error m \<Rightarrow> Some m | TypeError m \<Rightarrow> Some m | ThrownUndefined \<Rightarrow> None)"

text \<open>The test under the comment "Don't retry on certain errors".\<close>

definition nonRetryable :: "js_error \<Rightarrow> bool" where
  "nonRetryable e =
     (case errorMessage e of
        None \<Rightarrow> False
      | Some m \<Rightarrow> str_includes m ''quota'' \<or> str_includes m ''permission'' \<or> str_includes m ''invalid'')"

text \<open>
  The loop of withRetry. \<open>operation k\<close> is the outcome of the k-th call of the wrapped
  operation. The result comes with the number of calls made and the delays slept.
\<close>

function retryLoop ::
  "(nat \<Rightarrow> js_error + 'a) \<Rightarrow> (nat \<Rightarrow> rat) \<Rightarrow> nat \<Rightarrow> rat \<Rightarrow> nat \<Rightarrow> js_error option \<Rightarrow> rat list \<Rightarrow>
   (js_error + 'a) \<times> nat \<times> rat list" where
  "retryLoop operation jit maxRetries delay0 attempt lastError ds =
     (if attempt \<le> maxRetries
      then (case operation attempt of
              Inr v \<Rightarrow> (Inr v, attempt, ds)
            | Inl e \<Rightarrow>
                if nonRetryable e then (Inl e, attempt, ds)
                else if attempt < maxRetries
                then retryLoop operation jit maxRetries delay0 (attempt + 1) (Some e)
                       (ds @ [delay0 * 2 ^ (attempt - 1) + jit attempt])
                else retryLoop operation jit maxRetries delay0 (attempt + 1) (Some e) ds)
      else (case lastError of
              Some e \<Rightarrow> (Inl e, attempt - 1, ds)
            | None \<Rightarrow> (Inl ThrownUndefined, attempt - 1, ds)))"
  by pat_completeness auto
termination
  by (relation "measure (\<lambda>(operation, jit, maxRetries, delay0, attempt, lastError, ds).
        Suc maxRetries - attempt)") auto

declare retryLoop.simps [simp del]

definition withRetry ::
  "(nat \<Rightarrow> js_error + 'a) \<Rightarrow> (nat \<Rightarrow> rat) \<Rightarrow> nat \<Rightarrow> rat \<Rightarrow> (js_error + 'a) \<times> nat \<times> rat list" where
  "withRetry operation jit maxRetries delay0 = retryLoop operation jit maxRetries delay0 1 None []"

section \<open>Ken Burns generator (KenBurnsGenerator)\<close>

text \<open>A JavaScript number that may be non-finite.\<close>

datatype js_number = Finite rat | PosInfinity | NegInfinity | NaN

text \<open>\<open>Number.isFinite(x)\<close> and \<open>x <= 0\<close>; a comparison with NaN is false.\<close>

definition isFinite :: "js_number \<Rightarrow> bool" where
  "isFinite x = (case x of Finite r \<Rightarrow> True | PosInfinity \<Rightarrow> False | NegInfinity \<Rightarrow> False | NaN \<Rightarrow> False)"

definition leZero :: "js_number \<Rightarrow> bool" where
  "leZero x = (case x of Finite r \<Rightarrow> r \<le> 0 | PosInfinity \<Rightarrow> False | NegInfinity \<Rightarrow> True | NaN \<Rightarrow> False)"

record KenBurnsParams =
  imagePath :: string
  outputPath :: string
  kb_duration :: js_number
  width :: js_number
  height :: js_number

record KenBurnsOptions =
  fps :: js_number

text \<open>
  The file system and the external encoder as seen by generateKenBurns:
  \<open>fs.existsSync(imagePath)\<close>, the outcome of \<open>mkdir\<close>, and the outcome of the ffmpeg
  run (its error message when it fails).
\<close>

record KenBurnsEnv =
  imageExists :: bool
  mkdirError :: "js_error option"
  ffmpegError :: "string option"

text \<open>
  buildFilter. \<open>fmt\<close> is the conversion of a number to text in a template string.
  calculateZoom and calculatePan are pure, cannot raise, and their results are not used
  in the filter; they are left out.
\<close>

definition buildFilter ::
  "(js_number \<Rightarrow> string) \<Rightarrow> KenBurnsOptions \<Rightarrow> KenBurnsParams \<Rightarrow> js_error + string" where
  "buildFilter fmt opts params =
     (if \<not> isFinite (kb_duration params) \<or> leZero (kb_duration params)
      then Inl (Error (''Invalid duration: '' @ fmt (kb_duration params) @
                       ''. Must be a positive finite number.''))
      else if \<not> isFinite (width params) \<or> leZero (width params) \<or>
              \<not> isFinite (height params) \<or> leZero (height params)
      then Inl (Error (''Invalid dimensions: '' @ fmt (width params) @ ''x'' @
                       fmt (height params) @ ''. Must be positive finite numbers.''))
      else if \<not> isFinite (fps opts) \<or> leZero (fps opts)
      then Inl (Error (''Invalid fps: '' @ fmt (fps opts) @
                       ''. Must be a positive finite number.''))
      else Inr (''scale='' @ fmt (width params) @ '':'' @ fmt (height params) @
                '':force_original_aspect_ratio=decrease,'' @
                ''pad='' @ fmt (width params) @ '':'' @ fmt (height params) @
                '':(ow-iw)/2:(oh-ih)/2''))"

text \<open>generateKenBurns: the result, and whether the ffmpeg process was started.\<close>

definition generateKenBurns ::
  "(js_number \<Rightarrow> string) \<Rightarrow> KenBurnsOptions \<Rightarrow> KenBurnsEnv \<Rightarrow> KenBurnsParams \<Rightarrow>
   (js_error + string) \<times> bool" where
  "generateKenBurns fmt opts env params =
     (if \<not> imageExists env
      then (Inl (Error (''Input image not found: '' @ imagePath params)), False)
      else (case mkdirError env of
              Some e \<Rightarrow> (Inl e, False)
            | None \<Rightarrow>
                (case buildFilter fmt opts params of
                   Inl e \<Rightarrow> (Inl e, False)
                 | Inr flt \<Rightarrow>
                     (case ffmpegError env of
                        Some msg \<Rightarrow> (Inl (Error (''Ken Burns generation failed: '' @ msg)), True)
                      | None \<Rightarrow> (Inr (outputPath params), True)))))"

text \<open>The three messages raised by the validation in buildFilter.\<close>

definition isInvalidParameters :: "js_error \<Rightarrow> bool" where
  "isInvalidParameters e =
     (case e of
        Error m \<Rightarrow> take 17 m = ''Invalid duration:'' \<or> take 19 m = ''Invalid dimensions:'' \<or>
                   take 12 m = ''Invalid fps:''
      | TypeError m \<Rightarrow> False
      | ThrownUndefined \<Rightarrow> False)"

definition validNumber :: "js_number \<Rightarrow> bool" where
  "validNumber x = (isFinite x \<and> \<not> leZero x)"

section \<open>Timeline assembler: audio (VideoAssembler)\<close>

datatype AudioKind = Voiceover | Music

record AudioTrack =
  at_path :: string
  at_type :: AudioKind
  volume :: rat
  startTime :: rat
  at_duration :: rat



text \<open>
  The filter descriptions are kept as their syntax tree rather than as text.
  \<open>Chain i ops\<close> is the text \<open>[i:a]op1,op2[ai]\<close>; \<open>VolumeOp v\<close> is \<open>volume=v\<close>;
  \<open>AdelayOp l r\<close> is \<open>adelay=l|r\<close>; \<open>Amix n p\<close> is
  \<open>[a0]...[a(n-1)]amix=inputs=n:duration=p[mixed_audio]\<close>.
\<close>

datatype AudioFilterOp = VolumeOp rat | AdelayOp int int

datatype AudioFilter = Chain nat "AudioFilterOp list" | Amix nat string

text \<open>\<open>Math.round(x)\<close>: the nearest integer, halves upwards.\<close>

definition jsRound :: "rat \<Rightarrow> int" where
  "jsRound x = \<lfloor>x + 1 / 2\<rfloor>"

definition trackChain :: "nat \<Rightarrow> AudioTrack \<Rightarrow> AudioFilter" where
  "trackChain index track =
     Chain index
       ((if volume track \<noteq> 1 then [VolumeOp (volume track)] else []) @
        (if startTime track > 0
         then [AdelayOp (jsRound (startTime track * 1000)) (jsRound (startTime track * 1000))]
         else []))"

definition buildAudioMixFilter :: "AudioTrack list \<Rightarrow> AudioFilter list" where
  "buildAudioMixFilter audioTracks =
     map (\<lambda>(index, track). trackChain index track) (enumerate 0 audioTracks) @
     [Amix (length audioTracks) ''longest'']"









section \<open>Concrete inputs\<close>

definition mkImage :: "string \<Rightarrow> string \<Rightarrow> ImageInput" where
  "mkImage p r = \<lparr> path = p, room = Some r, captureTime = None \<rparr>"

definition cfg90 :: OutputConfig where
  "cfg90 = \<lparr> targetSeconds = 90 \<rparr>"

definition emptyPlan :: ScenePlan where
  "emptyPlan = \<lparr> scenes = [], totalDuration = 0, veoSegments = 0, kenBurnsSegments = 0 \<rparr>"

text \<open>Two photographs of the living room, and the plan computed for them.\<close>

definition twoLiving :: "ImageInput list" where
  "twoLiving = [mkImage ''living1.jpg'' ''living'', mkImage ''living2.jpg'' ''living'']"

definition twoLivingPlan :: ScenePlan where
  "twoLivingPlan =
     \<lparr> scenes =
         [\<lparr> scene_id = ''living'', scene_room = ''living'', images = twoLiving,
            duration = 8, scene_type = Veo \<rparr>,
          \<lparr> scene_id = ''living_filler'', scene_room = ''living'',
            images = [mkImage ''living2.jpg'' ''living''],
            duration = 6, scene_type = KenBurns \<rparr>],
       totalDuration = 14, veoSegments = 1, kenBurnsSegments = 1 \<rparr>"

text \<open>Two photographs of a bedroom and one of the entry.\<close>

definition bedroomsAndEntry :: "ImageInput list" where
  "bedroomsAndEntry = [mkImage ''bed1.jpg'' ''bedroom'', mkImage ''bed2.jpg'' ''bedroom'',
                       mkImage ''entry.jpg'' ''entry'']"

text \<open>One photograph of the entry and one of a bedroom.\<close>

definition entryThenBedroom :: "ImageInput list" where
  "entryThenBedroom = [mkImage ''entry.jpg'' ''entry'', mkImage ''bed.jpg'' ''bedroom'']"

definition entryThenBedroomPlan :: ScenePlan where
  "entryThenBedroomPlan =
     \<lparr> scenes =
         [\<lparr> scene_id = ''bedroom'', scene_room = ''bedroom'',
            images = [mkImage ''bed.jpg'' ''bedroom''], duration = 8, scene_type = Veo \<rparr>,
          \<lparr> scene_id = ''entry'', scene_room = ''entry'',
            images = [mkImage ''entry.jpg'' ''entry''], duration = 8, scene_type = Veo \<rparr>],
       totalDuration = 16, veoSegments = 2, kenBurnsSegments = 0 \<rparr>"




text \<open>Fourteen photographs, two of each of the seven known rooms.\<close>

definition twoPerRoom :: "ImageInput list" where
  "twoPerRoom = concat (map (\<lambda>r. [mkImage (r @ ''1.jpg'') r, mkImage (r @ ''2.jpg'') r]) roomOrder)"

text \<open>
  A render job and its service: two status queries answer "not done", the third answers
  "done" with a video; the jitter drawn after the first query is 900 ms, afterwards 0.
\<close>

definition pendingOp :: VeoOperation where
  "pendingOp = \<lparr> op_name = ''operations/1'', op_done = None, op_response = None,
                 op_error = None \<rparr>"

definition finishedOp :: VeoOperation where
  "finishedOp =
     \<lparr> op_name = ''operations/1'', op_done = Some True,
       op_response = Some \<lparr> videos = Some [\<lparr> gcsUri = Some ''gs://bucket/clip.mp4'' \<rparr>],
                             predictions = None \<rparr>,
       op_error = None \<rparr>"

definition doneOnThird :: "nat \<Rightarrow> VeoOperation fetch_result" where
  "doneOnThird k = (if k < 3 then HttpOk pendingOp else HttpOk finishedOp)"

definition jitterEarly :: "nat \<Rightarrow> rat" where
  "jitterEarly k = (if k = 1 then 900 else 0)"

text \<open>A job whose second status query reports done together with an error payload.\<close>

definition failedOp :: VeoOperation where
  "failedOp =
     \<lparr> op_name = ''operations/1'', op_done = Some True,
       op_response = Some \<lparr> videos = Some [\<lparr> gcsUri = Some ''gs://bucket/clip.mp4'' \<rparr>],
                             predictions = None \<rparr>,
       op_error = Some \<lparr> code = 13, message = ''internal error'' \<rparr> \<rparr>"

definition failingEnv :: VeoEnv where
  "failingEnv =
     \<lparr> auth = Inr ''token'',
       submitResponse = (\<lambda>k. HttpOk pendingOp),
       pollResponse = (\<lambda>k. if k < 2 then HttpOk pendingOp else HttpOk failedOp),
       jitter = (\<lambda>k. 0),
       download = (\<lambda>uri. None),
       extractLastFrame = Inr ''/tmp/clip_last_frame.png'',
       veoOutputPath = ''/tmp/clip.mp4'' \<rparr>"

text \<open>
  A service that answers the first submission with status 503 and would accept the
  second.
\<close>

definition busyOnceEnv :: VeoEnv where
  "busyOnceEnv =
     \<lparr> auth = Inr ''token'',
       submitResponse = (\<lambda>k. if k = 1 then HttpNotOk 503 ''Service Unavailable''
                               else HttpOk pendingOp),
       pollResponse = doneOnThird,
       jitter = (\<lambda>k. 0),
       download = (\<lambda>uri. None),
       extractLastFrame = Inr ''/tmp/clip_last_frame.png'',
       veoOutputPath = ''/tmp/clip.mp4'' \<rparr>"

text \<open>The submission of generateClip as an operation that withRetry could wrap.\<close>

definition submitOnce :: "VeoEnv \<Rightarrow> nat \<Rightarrow> js_error + VeoOperation" where
  "submitOnce env k =
     (case submitResponse env k of
        FetchRejected e \<Rightarrow> Inl e
      | HttpNotOk status body \<Rightarrow>
          Inl (Error (''Veo API request failed: '' @ digit_str status @ '' '' @ body))
      | HttpOk operation \<Rightarrow> Inr operation)"

text \<open>
  A rendering of numbers for the concrete evaluations below (non-negative integers in
  decimal); the general theorems hold for every rendering.
\<close>

definition showNumber :: "js_number \<Rightarrow> string" where
  "showNumber x =
     (case x of
        Finite r \<Rightarrow> if 0 \<le> r \<and> r = of_int \<lfloor>r\<rfloor> then digit_str (nat \<lfloor>r\<rfloor>) else ''?''
      | PosInfinity \<Rightarrow> ''Infinity''
      | NegInfinity \<Rightarrow> ''-Infinity''
      | NaN \<Rightarrow> ''NaN'')"

definition fps24 :: KenBurnsOptions where
  "fps24 = \<lparr> fps = Finite 24 \<rparr>"

definition zeroDurationParams :: KenBurnsParams where
  "zeroDurationParams =
     \<lparr> imagePath = ''photo.jpg'', outputPath = ''out.mp4'', kb_duration = Finite 0,
       width = Finite 1920, height = Finite 1080 \<rparr>"

definition sixSecondParams :: KenBurnsParams where
  "sixSecondParams =
     \<lparr> imagePath = ''photo.jpg'', outputPath = ''out.mp4'', kb_duration = Finite 6,
       width = Finite 1920, height = Finite 1080 \<rparr>"

definition imagePresentEnv :: KenBurnsEnv where
  "imagePresentEnv = \<lparr> imageExists = True, mkdirError = None, ffmpegError = None \<rparr>"

definition imageMissingEnv :: KenBurnsEnv where
  "imageMissingEnv = \<lparr> imageExists = False, mkdirError = None, ffmpegError = None \<rparr>"

text \<open>A voiceover at full volume from the start, and music at 12% starting at 1.5 s.\<close>

definition voiceTrack :: AudioTrack where
  "voiceTrack = \<lparr> at_path = ''voice.mp3'', at_type = Voiceover, volume = 1, startTime = 0,
                  at_duration = 90 \<rparr>"

definition musicTrack :: AudioTrack where
  "musicTrack = \<lparr> at_path = ''music.mp3'', at_type = Music, volume = 3 / 25,
                  startTime = 3 / 2, at_duration = 90 \<rparr>"

section \<open>Verification\<close>

subsection \<open>Grouping never fails and loses no image\<close>
lemma map_set_keys: "map_of g k = Some v \<Longrightarrow> map fst (map_set k w g) = map fst g"
  by (induction g) (auto split: if_splits)

lemma map_set_mset:
  "map_of g k = Some v \<Longrightarrow>
   mset (concat (map snd (map_set k (v @ [x]) g))) = mset (concat (map snd g)) + {#x#}"
  by (induction g) (auto split: if_splits)

lemma map_of_map_set: "map_of (map_set k w g) k' = (if k' = k then Some w else map_of g k')"
  by (induction g) auto

lemma push_to_ok:
  "map_of g k = Some v \<Longrightarrow> push_to k x g = Inr (map_set k (v @ [x]) g)"
  by (simp add: push_to_def)

lemma push_to_Inr:
  assumes "push_to k x g = Inr g'"
  shows "map fst g' = map fst g"
    and "mset (concat (map snd g')) = mset (concat (map snd g)) + {#x#}"
  using assms
  by (auto simp: push_to_def map_set_keys map_set_mset split: option.splits)

lemma map_of_None_iff_keys: "(map_of g k = None) = (k \<notin> set (map fst g))"
  by (simp add: map_of_eq_None_iff)

lemma groupLoop_ok:
  "''other'' \<in> set (map fst g) \<Longrightarrow>
   \<exists>g'. groupLoop imgs g = Inr g' \<and> map fst g' = map fst g \<and>
        mset (concat (map snd g')) = mset (concat (map snd g)) + mset imgs"
proof (induction imgs arbitrary: g)
  case Nil
  then show ?case by simp
next
  case (Cons img rest)
  define key where "key = (if map_of g (roomOrOther img) \<noteq> None then roomOrOther img else ''other'')"
  have "key \<in> set (map fst g)"
    using Cons.prems by (auto simp: key_def map_of_None_iff_keys)
  then obtain v where v: "map_of g key = Some v"
    by (metis map_of_None_iff_keys not_Some_eq)
  define g1 where "g1 = map_set key (v @ [img]) g"
  have p: "push_to key img g = Inr g1"
    by (simp add: push_to_ok [OF v] g1_def)
  have k1: "map fst g1 = map fst g" and m1: "mset (concat (map snd g1)) = mset (concat (map snd g)) + {#img#}"
    using push_to_Inr [OF p] by auto
  from Cons.IH [of g1] Cons.prems k1 obtain g' where
    "groupLoop rest g1 = Inr g'" "map fst g' = map fst g1"
    "mset (concat (map snd g')) = mset (concat (map snd g1)) + mset rest"
    by auto
  moreover have "groupLoop (img # rest) g = groupLoop rest g1"
    using p by (simp add: key_def Let_def)
  ultimately show ?case using k1 m1 by simp
qed


lemma map_set_absent: "map_of g k = None \<Longrightarrow> map_set k w g = g @ [(k, w)]"
  by (induction g) (auto split: if_splits)

lemma map_delete_map_set:
  "k \<noteq> k0 \<Longrightarrow> map_of g k = Some v \<Longrightarrow>
   mset (concat (map snd (map_delete k0 (map_set k (v @ [x]) g)))) =
   mset (concat (map snd (map_delete k0 g))) + {#x#}"
  by (induction g) (auto simp: map_delete_def split: if_splits)

lemma push_to_nonOther:
  "k \<noteq> ''other'' \<Longrightarrow> push_to k x g = Inr g' \<Longrightarrow> nonOther g' = nonOther g + {#x#}"
  by (auto simp: push_to_def nonOther_def map_delete_map_set split: option.splits)

lemma map_delete_absent: "k \<notin> set (map fst g) \<Longrightarrow> map_delete k g = g"
  by (induction g) (auto simp: map_delete_def)

lemma split_group:
  "distinct (map fst g) \<Longrightarrow> map_of g k = Some v \<Longrightarrow>
   mset (concat (map snd g)) = mset v + mset (concat (map snd (map_delete k g)))"
proof (induction g)
  case Nil
  then show ?case by simp
next
  case (Cons a g)
  obtain k' v' where a: "a = (k', v')" by (cases a)
  show ?case
  proof (cases "k' = k")
    case True
    with Cons.prems a have nk: "k \<notin> set (map fst g)" and vv: "v' = v" by auto
    have "map_delete k (a # g) = map_delete k g"
      by (simp add: map_delete_def a True)
    then have "map_delete k (a # g) = g"
      using map_delete_absent [OF nk] by simp
    then show ?thesis using a vv by simp
  next
    case False
    with Cons a show ?thesis by (simp add: map_delete_def)
  qed
qed

lemma redistLoop_ok:
  "set sortedRooms \<subseteq> set (map fst g) \<Longrightarrow> ''other'' \<notin> set sortedRooms \<Longrightarrow>
   \<exists>g'. redistLoop imgs sortedRooms g = Inr g' \<and> nonOther g' = nonOther g + mset imgs"
proof (induction imgs arbitrary: sortedRooms g)
  case Nil
  then show ?case by simp
next
  case (Cons img rest)
  show ?case
  proof (cases sortedRooms)
    case Nil
    define g1 where "g1 = (if map_of g ''living'' = None then map_set ''living'' [] g else g)"
    have n1: "nonOther g1 = nonOther g"
      by (simp add: g1_def nonOther_def map_set_absent map_delete_def)
    have "map_of g1 ''living'' \<noteq> None"
      by (simp add: g1_def map_of_map_set)
    then obtain v where v: "map_of g1 ''living'' = Some v" by auto
    define g2 where "g2 = map_set ''living'' (v @ [img]) g1"
    have p: "push_to ''living'' img g1 = Inr g2"
      by (simp add: push_to_ok [OF v] g2_def)
    have n2: "nonOther g2 = nonOther g1 + {#img#}"
      by (rule push_to_nonOther [OF _ p]) simp
    from Cons.IH [of "[]" g2] obtain g' where
      "redistLoop rest [] g2 = Inr g'" "nonOther g' = nonOther g2 + mset rest"
      by auto
    moreover have "redistLoop (img # rest) sortedRooms g = redistLoop rest [] g2"
      using p Nil by (simp add: g1_def Let_def)
    ultimately show ?thesis using n1 n2 by simp
  next
    case (Cons targetRoom others)
    have t: "targetRoom \<in> set (map fst g)" "targetRoom \<noteq> ''other''"
      using Cons Cons.prems by auto
    then obtain v where v: "map_of g targetRoom = Some v"
      by (metis map_of_None_iff_keys not_Some_eq)
    define g2 where "g2 = map_set targetRoom (v @ [img]) g"
    have p: "push_to targetRoom img g = Inr g2"
      by (simp add: push_to_ok [OF v] g2_def)
    have n2: "nonOther g2 = nonOther g + {#img#}"
      by (rule push_to_nonOther [OF t(2) p])
    have k2: "map fst g2 = map fst g"
      using push_to_Inr(1) [OF p] .
    have "set (sort_key (groupLen g2) sortedRooms) \<subseteq> set (map fst g2)"
         "''other'' \<notin> set (sort_key (groupLen g2) sortedRooms)"
      using Cons.prems k2 by auto
    from Cons.IH [OF this] obtain g' where
      "redistLoop rest (sort_key (groupLen g2) sortedRooms) g2 = Inr g'"
      "nonOther g' = nonOther g2 + mset rest"
      by auto
    moreover have "redistLoop (img # rest) sortedRooms g =
        redistLoop rest (sort_key (groupLen g2) sortedRooms) g2"
      using p Cons by simp
    ultimately show ?thesis using n2 by simp
  qed
qed

lemma filter_empty_groups:
  "concat (map snd (filter (\<lambda>(r, grp). \<not> (grp = [] \<and> r \<noteq> k)) g)) = concat (map snd g)"
  by (induction g) auto

lemma map_of_filter_keep:
  "map_of (filter (\<lambda>(r, grp). \<not> (grp = [] \<and> r \<noteq> k)) g) k = map_of g k"
  by (induction g) auto

lemma groupImagesByRoom_ok:
  "\<exists>g. groupImagesByRoom imgs = Inr g \<and> mset (concat (map snd g)) = mset imgs \<and> g \<noteq> []"
proof -
  define g0 where "g0 = initialGroups"
  have k0: "map fst g0 = roomOrder @ [''other'']"
    by (simp add: g0_def initialGroups_def comp_def)
  have d0: "distinct (map fst g0)"
    unfolding k0 by (simp add: roomOrder_def)
  have c0: "concat (map snd g0) = []"
    by (simp add: g0_def initialGroups_def roomOrder_def)
  have "''other'' \<in> set (map fst g0)" unfolding k0 by simp
  from groupLoop_ok [OF this, of imgs] c0 obtain g1 where
    g1: "groupLoop imgs g0 = Inr g1" "map fst g1 = map fst g0"
        "mset (concat (map snd g1)) = mset imgs"
    by auto
  define g2 where "g2 = removeEmptyGroups g1"
  have c2: "mset (concat (map snd g2)) = mset imgs"
    unfolding g2_def removeEmptyGroups_def filter_empty_groups by (rule g1(3))
  have d2: "distinct (map fst g2)"
    unfolding g2_def removeEmptyGroups_def using d0 g1(2) by (simp add: distinct_map_filter)
  have "map_of g1 ''other'' \<noteq> None"
    using g1(2) k0 by (simp add: map_of_None_iff_keys)
  moreover have "map_of g2 ''other'' = map_of g1 ''other''"
    unfolding g2_def removeEmptyGroups_def by (rule map_of_filter_keep)
  ultimately obtain v where v: "map_of g2 ''other'' = Some v"
    by auto
  then have ne2: "g2 \<noteq> []" by auto
  show ?thesis
  proof (cases "v = []")
    case True
    then have "groupImagesByRoom imgs = Inr g2"
      using g1(1) v by (simp add: groupImagesByRoom_def g0_def [symmetric] g2_def [symmetric] Let_def)
    then show ?thesis using c2 ne2 by simp
  next
    case False
    define sr where "sr = sort_key (groupLen g2)
          (map fst (filter (\<lambda>(r, imgs). r \<noteq> ''other'' \<and> imgs \<noteq> []) g2))"
    have "set sr \<subseteq> set (map fst g2)" "''other'' \<notin> set sr"
      by (auto simp: sr_def)
    from redistLoop_ok [OF this, of v] obtain g3 where
      g3: "redistLoop v sr g2 = Inr g3" "nonOther g3 = nonOther g2 + mset v"
      by auto
    have "mset (concat (map snd g2)) = mset v + nonOther g2"
      using split_group [OF d2 v] by (simp add: nonOther_def)
    then have c3: "nonOther g3 = mset imgs"
      using g3(2) c2 by simp
    have "mset v \<subseteq># nonOther g3" using g3(2) by simp
    then have "nonOther g3 \<noteq> {#}" using False by auto
    then have ne3: "map_delete ''other'' g3 \<noteq> []"
      by (auto simp: nonOther_def)
    have "groupImagesByRoom imgs = Inr (map_delete ''other'' g3)"
      using g1(1) v False g3(1)
      by (simp add: groupImagesByRoom_def g0_def [symmetric] g2_def [symmetric] Let_def
            redistributeOtherImages_def sr_def [symmetric])
    then show ?thesis using c3 ne3 by (simp add: nonOther_def)
  qed
qed

lemma slices_concat:
  "concat (map (\<lambda>i. take m (drop (i * m) xs)) [0 ..< k]) = take (k * m) xs"
proof (induction k)
  case 0
  then show ?case by simp
next
  case (Suc k)
  have "take (k * m) xs @ take m (drop (k * m) xs) = take (k * m + m) xs"
    by (simp add: take_add)
  then show ?case using Suc by (simp add: add.commute)
qed

lemma ceil_div_cover: "0 < b \<Longrightarrow> a \<le> ceil_div a b * b"
proof -
  assume b: "0 < b"
  have "(a + b - 1) mod b < b" using b by simp
  moreover have "(a + b - 1) div b * b + (a + b - 1) mod b = a + b - 1" by simp
  ultimately have "a + b - 1 < (a + b - 1) div b * b + b" by linarith
  then show ?thesis using b by (simp add: ceil_div_def)
qed

lemma ceil_div_pos: "0 < a \<Longrightarrow> 0 < b \<Longrightarrow> 0 < ceil_div a b"
  by (simp add: ceil_div_def div_greater_zero_iff)

lemma createRoomScenes_split:
  "length imgs > 4 \<and> rm \<noteq> ''exterior'' \<Longrightarrow>
   createRoomScenes rm imgs timing =
     map (\<lambda>i. \<lparr> scene_id = rm @ ''_'' @ digit_str (i + 1), scene_room = rm,
                 images = take (ceil_div (length imgs) (ceil_div (length imgs) 3))
                            (drop (i * ceil_div (length imgs) (ceil_div (length imgs) 3)) imgs),
                 duration = idealSegmentDuration timing, scene_type = Veo \<rparr>)
         [0 ..< ceil_div (length imgs) 3]"
  unfolding createRoomScenes_def Let_def by (rule if_P)

lemma createRoomScenes_single:
  "\<not> (length imgs > 4 \<and> rm \<noteq> ''exterior'') \<Longrightarrow>
   createRoomScenes rm imgs timing =
     [\<lparr> scene_id = rm, scene_room = rm, images = imgs,
        duration = idealSegmentDuration timing, scene_type = Veo \<rparr>]"
  unfolding createRoomScenes_def Let_def by (rule if_not_P)

lemma createRoomScenes_images:
  "concat (map images (createRoomScenes rm imgs timing)) = imgs"
proof (cases "length imgs > 4 \<and> rm \<noteq> ''exterior''")
  case True
  define n where "n = ceil_div (length imgs) 3"
  define m where "m = ceil_div (length imgs) n"
  have "0 < n" unfolding n_def using True by (intro ceil_div_pos) auto
  then have "length imgs \<le> n * m"
    using ceil_div_cover [of n "length imgs"] by (simp add: m_def mult.commute)
  then have "take (n * m) imgs = imgs" by simp
  moreover have "concat (map images (createRoomScenes rm imgs timing)) =
      concat (map (\<lambda>i. take m (drop (i * m) imgs)) [0 ..< n])"
    unfolding createRoomScenes_split [OF True] by (simp add: n_def m_def comp_def)
  ultimately show ?thesis by (simp add: slices_concat)
next
  case False
  show ?thesis unfolding createRoomScenes_single [OF False] by simp
qed


lemma createScenes_images:
  "concat (map images (createScenes g timing)) = concat (map snd g)"
  by (induction g timing rule: createScenes.induct) (auto simp: createRoomScenes_images)


subsection \<open>The three passes of optimizeScenes\<close>

lemma assignTypes_keeps:
  "map images (fst (assignTypes opts m scs used tot)) = map images scs \<and>
   map scene_room (fst (assignTypes opts m scs used tot)) = map scene_room scs"
  by (induction scs arbitrary: used tot) (auto simp: Let_def case_prod_beta)

lemma assignTypes_veo_count:
  "length (filter (\<lambda>s. scene_type s = Veo) (fst (assignTypes opts m scs used tot))) \<le> m - used"
proof (induction scs arbitrary: used tot)
  case Nil
  then show ?case by simp
next
  case (Cons s scs)
  show ?case
  proof (cases "used < m \<and> preferVeoOverKenBurns opts")
    case True
    have "length (filter (\<lambda>s. scene_type s = Veo)
            (fst (assignTypes opts m scs (used + 1) (tot + duration (s\<lparr>scene_type := Veo\<rparr>)))))
          \<le> m - (used + 1)"
      by (rule Cons.IH)
    then show ?thesis using True by (auto simp: Let_def case_prod_beta)
  next
    case False
    have "length (filter (\<lambda>s. scene_type s = Veo)
            (fst (assignTypes opts m scs used
               (tot + duration (s\<lparr>scene_type := KenBurns, duration := min (duration s) 6\<rparr>)))))
          \<le> m - used"
      by (rule Cons.IH)
    then show ?thesis using False by (auto simp: Let_def case_prod_beta)
  qed
qed


lemma adjustSceneDurations_keeps:
  "map images (adjustSceneDurations scs t) = map images scs \<and>
   map scene_room (adjustSceneDurations scs t) = map scene_room scs \<and>
   map scene_type (adjustSceneDurations scs t) = map scene_type scs"
  by (simp add: adjustSceneDurations_def Let_def comp_def)

lemma addFillerScenes_cases:
  "addFillerScenes scs extra = scs \<or>
   (\<exists>f. addFillerScenes scs extra = scs @ [f] \<and> isFillerOf scs f)"
proof (cases "filter (\<lambda>s. length (images s) > 1) scs")
  case Nil
  then show ?thesis by (simp add: addFillerScenes_def)
next
  case (Cons src others)
  then show ?thesis by (simp add: addFillerScenes_def isFillerOf_def)
qed

text \<open>The list of scenes after the second pass, before a filler may be appended.\<close>

lemma optimizeScenes_structure:
  "\<exists>base. (optimizeScenes opts scs timing = base \<or>
            (\<exists>f. optimizeScenes opts scs timing = base @ [f] \<and> isFillerOf base f)) \<and>
          map images base = map images (sort_key priorityOf scs) \<and>
          map scene_room base = map scene_room (sort_key priorityOf scs) \<and>
          length (filter (\<lambda>s. scene_type s = Veo) base) \<le> tc_maxVeoSegments timing"
proof -
  define sortedScenes where "sortedScenes = sort_key priorityOf scs"
  define typed where "typed = fst (assignTypes opts (tc_maxVeoSegments timing) sortedScenes 0 0)"
  define tot where "tot = snd (assignTypes opts (tc_maxVeoSegments timing) sortedScenes 0 0)"
  define adjusted where "adjusted = (if tot \<noteq> availableContentTime timing
      then adjustSceneDurations typed (availableContentTime timing) else typed)"
  have o: "optimizeScenes opts scs timing =
      (if tot < availableContentTime timing * (95 / 100)
       then addFillerScenes adjusted (availableContentTime timing - tot) else adjusted)"
    by (simp add: optimizeScenes_def Let_def sortedScenes_def typed_def tot_def adjusted_def
          case_prod_beta)
  have k: "map images typed = map images sortedScenes"
          "map scene_room typed = map scene_room sortedScenes"
    using assignTypes_keeps [of opts "tc_maxVeoSegments timing" sortedScenes 0 0]
    by (simp_all add: typed_def)
  have v: "length (filter (\<lambda>s. scene_type s = Veo) typed) \<le> tc_maxVeoSegments timing"
    using assignTypes_veo_count [of opts "tc_maxVeoSegments timing" sortedScenes 0 0]
    by (simp add: typed_def)
  have ty: "map scene_type adjusted = map scene_type typed"
    by (simp add: adjusted_def adjustSceneDurations_keeps)
  have "filter (\<lambda>t. t = Veo) (map scene_type adjusted) = filter (\<lambda>t. t = Veo) (map scene_type typed)"
    using ty by simp
  then have "length (filter (\<lambda>s. scene_type s = Veo) adjusted) =
      length (filter (\<lambda>s. scene_type s = Veo) typed)"
    by (metis (no_types, lifting) filter_map length_map comp_def filter_cong)
  with v have va: "length (filter (\<lambda>s. scene_type s = Veo) adjusted) \<le> tc_maxVeoSegments timing"
    by simp
  have ka: "map images adjusted = map images sortedScenes"
           "map scene_room adjusted = map scene_room sortedScenes"
    using k by (simp_all add: adjusted_def adjustSceneDurations_keeps)
  have "optimizeScenes opts scs timing = adjusted \<or>
        (\<exists>f. optimizeScenes opts scs timing = adjusted @ [f] \<and> isFillerOf adjusted f)"
    using addFillerScenes_cases [of adjusted "availableContentTime timing - tot"]
    by (auto simp: o)
  then show ?thesis using ka va unfolding sortedScenes_def by blast
qed

subsection \<open>The shape of every plan\<close>

lemma mset_concat_map:
  "mset (concat (map f xs)) = sum_mset (image_mset (\<lambda>x. mset (f x)) (mset xs))"
  by (induction xs) auto

lemma mset_concat_sort_key:
  "mset (concat (map f (sort_key k xs))) = mset (concat (map f xs))"
  by (simp add: mset_concat_map)

lemma priorityOf_room:
  "map scene_room xs = map scene_room ys \<Longrightarrow> map priorityOf xs = map priorityOf ys"
proof -
  assume a: "map scene_room xs = map scene_room ys"
  have p: "priorityOf = (\<lambda>r. case indexOf veoPriority r of None \<Rightarrow> 999 | Some p \<Rightarrow> p) \<circ> scene_room"
    by (rule ext) (simp add: priorityOf_def)
  have "map priorityOf xs =
      map (\<lambda>r. case indexOf veoPriority r of None \<Rightarrow> 999 | Some p \<Rightarrow> p) (map scene_room xs)"
    unfolding p by simp
  also have "\<dots> = map (\<lambda>r. case indexOf veoPriority r of None \<Rightarrow> 999 | Some p \<Rightarrow> p) (map scene_room ys)"
    using a by simp
  also have "\<dots> = map priorityOf ys"
    unfolding p by simp
  finally show ?thesis .
qed


lemma planScenes_structure:
  "\<exists>plan base. planScenes opts imgs cfg = Inr plan \<and>
     plan = buildScenePlan (scenes plan) \<and>
     (scenes plan = base \<or> (\<exists>f. scenes plan = base @ [f] \<and> isFillerOf base f)) \<and>
     mset (concat (map images base)) = mset imgs \<and>
     sorted (map priorityOf base) \<and>
     length (filter (\<lambda>s. scene_type s = Veo) base) \<le> maxVeoSegments opts"
proof -
  obtain g where g: "groupImagesByRoom imgs = Inr g" "mset (concat (map snd g)) = mset imgs"
    using groupImagesByRoom_ok [of imgs] by auto
  define timing where "timing = calculateTiming opts cfg (length g)"
  define scs where "scs = createScenes g timing"
  have tm: "tc_maxVeoSegments timing = maxVeoSegments opts"
    by (simp add: timing_def calculateTiming_def Let_def)
  have p: "planScenes opts imgs cfg = Inr (buildScenePlan (optimizeScenes opts scs timing))"
    using g(1) by (simp add: planScenes_def Let_def timing_def scs_def)
  obtain base where b:
    "optimizeScenes opts scs timing = base \<or>
       (\<exists>f. optimizeScenes opts scs timing = base @ [f] \<and> isFillerOf base f)"
    "map images base = map images (sort_key priorityOf scs)"
    "map scene_room base = map scene_room (sort_key priorityOf scs)"
    "length (filter (\<lambda>s. scene_type s = Veo) base) \<le> tc_maxVeoSegments timing"
    using optimizeScenes_structure [of opts scs timing] by blast
  have "mset (concat (map images base)) = mset (concat (map images scs))"
    unfolding b(2) by (rule mset_concat_sort_key)
  also have "\<dots> = mset imgs"
    by (simp add: scs_def createScenes_images g(2))
  finally have m: "mset (concat (map images base)) = mset imgs" .
  have "map priorityOf base = map priorityOf (sort_key priorityOf scs)"
    by (rule priorityOf_room [OF b(3)])
  then have s: "sorted (map priorityOf base)"
    by (simp add: sorted_sort_key)
  have sc: "scenes (buildScenePlan (optimizeScenes opts scs timing)) = optimizeScenes opts scs timing"
    by (simp add: buildScenePlan_def)
  show ?thesis
    using p b(1) b(4) m s sc tm by (intro exI [of _ "buildScenePlan (optimizeScenes opts scs timing)"] exI [of _ base]) auto
qed

lemma planScenes_empty: "planScenes opts [] cfg = Inr emptyPlan"
proof -
  have r: "removeEmptyGroups initialGroups = [(''other'', [])]"
    by (simp add: removeEmptyGroups_def initialGroups_def roomOrder_def)
  have g: "groupImagesByRoom [] = Inr [(''other'', [])]"
    by (simp add: groupImagesByRoom_def r)
  have o: "optimizeScenes opts [] timing = []" for timing
    by (simp add: optimizeScenes_def adjustSceneDurations_def addFillerScenes_def)
  show ?thesis
    by (simp add: planScenes_def g o buildScenePlan_def emptyPlan_def)
qed

lemma twoLiving_plan: "planScenes defaultOptions twoLiving cfg90 = Inr twoLivingPlan"
  by code_simp

lemma entryThenBedroom_plan:
  "planScenes defaultOptions entryThenBedroom cfg90 = Inr entryThenBedroomPlan"
  by code_simp

lemma bedroomsAndEntry_rooms:
  "map_sum id (map scene_room \<circ> scenes) (planScenes defaultOptions bedroomsAndEntry cfg90) =
     Inr [''bedroom'', ''entry'', ''bedroom'']"
  by code_simp

subsection \<open>Claims about the scene planner\<close>

text \<open>
  C2 (amended). planScenes raises for no image list at all: it always returns a plan.
  For the empty list it does not raise either; it returns the plan with no scenes and a
  total duration of 0.
\<close>

theorem planScenes_always_returns:
  "(\<exists>plan. planScenes opts imgs cfg = Inr plan) \<and> planScenes opts [] cfg = Inr emptyPlan"
  using planScenes_structure [of opts imgs cfg] planScenes_empty [of opts cfg] by blast

theorem planScenes_always_returns_witness:
  "planScenes defaultOptions twoLiving cfg90 = Inr twoLivingPlan \<and>
   planScenes defaultOptions [] cfg90 = Inr emptyPlan"
  using planScenes_always_returns [of defaultOptions twoLiving cfg90] twoLiving_plan
  by simp

text \<open>
  C2 as stated fails: with the default options and a target of 90 seconds the empty
  image list is planned, not rejected.
\<close>

theorem planScenes_empty_list_not_rejected:
  "planScenes defaultOptions [] cfg90 = Inr emptyPlan \<and>
   \<not> isl (planScenes defaultOptions [] cfg90)"
  by (simp add: planScenes_empty)

text \<open>
  C3 (amended). No input image is dropped: the scenes of the plan, leaving aside a
  filler scene appended last, hold every input image exactly once. When a filler scene
  is appended it holds one image, which is an input image already held by an earlier
  scene.
\<close>

theorem scenes_partition_images_up_to_filler:
  "\<exists>plan base. planScenes opts imgs cfg = Inr plan \<and>
     mset (concat (map images base)) = mset imgs \<and>
     (scenes plan = base \<or>
      (\<exists>f x. scenes plan = base @ [f] \<and> isFillerOf base f \<and> images f = [x] \<and>
             x \<in> set (concat (map images base)) \<and> x \<in> set imgs))"
proof -
  obtain plan base where pb:
    "planScenes opts imgs cfg = Inr plan"
    "scenes plan = base \<or> (\<exists>f. scenes plan = base @ [f] \<and> isFillerOf base f)"
    "mset (concat (map images base)) = mset imgs"
    using planScenes_structure [of opts imgs cfg] by blast
  have sets: "set (concat (map images base)) = set imgs"
    using pb(3) by (rule mset_eq_setD)
  have fill: "\<exists>x. images f = [x] \<and> x \<in> set (concat (map images base))"
    if f: "isFillerOf base f" for f
  proof -
    from f obtain src others where
      s: "filter (\<lambda>s. length (images s) > 1) base = src # others"
         "images f = [last (images src)]"
      by (auto simp: isFillerOf_def split: list.splits)
    have "src \<in> set (filter (\<lambda>s. length (images s) > 1) base)"
      unfolding s(1) by simp
    then have "src \<in> set base" "images src \<noteq> []" by auto
    then have "last (images src) \<in> set (concat (map images base))"
      by (auto intro: last_in_set)
    then show ?thesis using s(2) by simp
  qed
  from pb(2) show ?thesis
  proof
    assume "scenes plan = base"
    then show ?thesis using pb(1) pb(3) by blast
  next
    assume "\<exists>f. scenes plan = base @ [f] \<and> isFillerOf base f"
    then obtain f where f: "scenes plan = base @ [f]" "isFillerOf base f" by blast
    from fill [OF f(2)] obtain x where "images f = [x]" "x \<in> set (concat (map images base))"
      by blast
    then show ?thesis using pb(1) pb(3) f sets by blast
  qed
qed

theorem scenes_partition_images_up_to_filler_witness:
  "\<exists>base f. scenes twoLivingPlan = base @ [f] \<and>
     mset (concat (map images base)) = mset twoLiving \<and>
     images f = [mkImage ''living2.jpg'' ''living'']"
proof -
  from scenes_partition_images_up_to_filler [of defaultOptions twoLiving cfg90] twoLiving_plan
  obtain base where
    b: "mset (concat (map images base)) = mset twoLiving" and
    c: "scenes twoLivingPlan = base \<or>
        (\<exists>f x. scenes twoLivingPlan = base @ [f] \<and> isFillerOf base f \<and> images f = [x] \<and>
               x \<in> set (concat (map images base)) \<and> x \<in> set twoLiving)"
    by auto
  from c show ?thesis
  proof
    assume "scenes twoLivingPlan = base"
    then have "size (mset (concat (map images base))) = 3"
      by (auto simp: twoLivingPlan_def twoLiving_def)
    moreover have "size (mset twoLiving) = 2"
      by (simp add: twoLiving_def)
    ultimately show ?thesis using b by simp
  next
    assume "\<exists>f x. scenes twoLivingPlan = base @ [f] \<and> isFillerOf base f \<and> images f = [x] \<and>
               x \<in> set (concat (map images base)) \<and> x \<in> set twoLiving"
    then obtain f where f: "scenes twoLivingPlan = base @ [f]" by blast
    then have "f = last (scenes twoLivingPlan)" by simp
    then have "images f = [mkImage ''living2.jpg'' ''living'']"
      by (simp add: twoLivingPlan_def)
    then show ?thesis using f b by blast
  qed
qed

text \<open>
  C3 as stated fails: for two photographs of the living room and a target of 90 seconds
  the second photograph occurs in two scenes of the plan.
\<close>

theorem filler_scene_repeats_an_image:
  "planScenes defaultOptions twoLiving cfg90 = Inr twoLivingPlan \<and>
   count (mset (concat (map images (scenes twoLivingPlan)))) (mkImage ''living2.jpg'' ''living'') = 2"
  by (simp add: twoLiving_plan) (simp add: twoLivingPlan_def twoLiving_def mkImage_def)



lemma priority_entry_bedroom:
  "scene_room a = ''entry'' \<Longrightarrow> scene_room b = ''bedroom'' \<Longrightarrow> priorityOf b < priorityOf a"
  by (simp add: priorityOf_def veoPriority_def)

text \<open>
  C10 (amended). The scenes of the plan, leaving aside a filler scene appended last, are
  in the Veo-priority order (exterior, living, kitchen, bedroom, entry, bathroom,
  backyard, then unranked rooms); among them every bedroom scene comes before every
  entry scene. A filler scene, when there is one, is the last scene whatever its room.
\<close>

theorem scenes_in_priority_order_before_filler:
  "\<exists>plan base. planScenes opts imgs cfg = Inr plan \<and>
     (scenes plan = base \<or> (\<exists>f. scenes plan = base @ [f] \<and> isFillerOf base f)) \<and>
     sorted (map priorityOf base) \<and>
     (\<forall>i j. i < length base \<and> j < length base \<and>
            scene_room (base ! i) = ''entry'' \<and> scene_room (base ! j) = ''bedroom'' \<longrightarrow> j < i)"
proof -
  obtain plan base where pb:
    "planScenes opts imgs cfg = Inr plan"
    "scenes plan = base \<or> (\<exists>f. scenes plan = base @ [f] \<and> isFillerOf base f)"
    "sorted (map priorityOf base)"
    using planScenes_structure [of opts imgs cfg] by blast
  have "j < i" if h: "i < length base" "j < length base"
      "scene_room (base ! i) = ''entry''" "scene_room (base ! j) = ''bedroom''" for i j
  proof (rule ccontr)
    assume "\<not> j < i"
    then have "i \<le> j" by simp
    then have "map priorityOf base ! i \<le> map priorityOf base ! j"
      using pb(3) h(2) by (simp add: sorted_iff_nth_mono del: nth_map)
    then have "priorityOf (base ! i) \<le> priorityOf (base ! j)"
      using h(1) h(2) by simp
    then show False
      using priority_entry_bedroom [OF h(3) h(4)] by simp
  qed
  then show ?thesis using pb by blast
qed

theorem scenes_in_priority_order_before_filler_witness:
  "\<exists>base. scenes entryThenBedroomPlan = base \<and> sorted (map priorityOf base) \<and>
     scene_room (base ! 1) = ''entry'' \<and> scene_room (base ! 0) = ''bedroom'' \<and> (0::nat) < 1"
proof -
  from scenes_in_priority_order_before_filler [of defaultOptions entryThenBedroom cfg90]
    entryThenBedroom_plan
  obtain base where
    c: "scenes entryThenBedroomPlan = base \<or>
        (\<exists>f. scenes entryThenBedroomPlan = base @ [f] \<and> isFillerOf base f)" and
    s: "sorted (map priorityOf base)" and
    o: "\<forall>i j. i < length base \<and> j < length base \<and>
            scene_room (base ! i) = ''entry'' \<and> scene_room (base ! j) = ''bedroom'' \<longrightarrow> j < i"
    by auto
  have "scenes entryThenBedroomPlan = base"
  proof (rule ccontr)
    assume n: "scenes entryThenBedroomPlan \<noteq> base"
    with c obtain f where f: "scenes entryThenBedroomPlan = base @ [f]" "isFillerOf base f"
      by blast
    from f(1) have "base = butlast (scenes entryThenBedroomPlan)"
      by simp
    then have "filter (\<lambda>s. length (images s) > 1) base = []"
      by (simp add: entryThenBedroomPlan_def)
    with f(2) show False by (simp add: isFillerOf_def)
  qed
  moreover from this have "scene_room (base ! 1) = ''entry''" "scene_room (base ! 0) = ''bedroom''"
    by (auto simp: entryThenBedroomPlan_def)
  moreover from this o calculation(1) have "(0::nat) < 1" by simp
  ultimately show ?thesis using s by blast
qed

text \<open>
  C10 as stated fails: for two bedroom photographs and one of the entry, with a target
  of 90 seconds, the plan has a bedroom scene, the entry scene, and then the bedroom
  filler scene: an entry scene comes before a bedroom scene.
\<close>

theorem filler_scene_breaks_priority_order:
  "map_sum id (map scene_room \<circ> scenes) (planScenes defaultOptions bedroomsAndEntry cfg90) =
     Inr [''bedroom'', ''entry'', ''bedroom'']"
  by code_simp

subsection \<open>Total duration\<close>











text \<open>
  The scenario of the specification, fourteen photographs over the seven known rooms
  with a target of 90 seconds: seven scenes of 8 seconds and a filler of 6 seconds.
\<close>

lemma two_per_room_total:
  "map_sum id totalDuration (planScenes defaultOptions twoPerRoom cfg90) = Inr 62"
  by code_simp

subsection \<open>The poll loop\<close>

lemma baseDelay_mono: "a \<le> b \<Longrightarrow> baseDelay a \<le> baseDelay b"
proof -
  assume "a \<le> b"
  then have "(3 / 2 :: rat) ^ a \<le> (3 / 2) ^ b"
    by (intro power_increasing) auto
  then have "1000 * (3 / 2 :: rat) ^ a \<le> 1000 * (3 / 2) ^ b" by simp
  then show ?thesis unfolding baseDelay_def by (intro min.mono) auto
qed

lemma baseDelay_cap: "baseDelay a \<le> 30000"
  by (simp add: baseDelay_def)

lemma pollLoop_bounds:
  "attempts \<le> maxAttempts \<Longrightarrow> pollLoop fetch jit maxAttempts attempts ds = (res, n, ds') \<Longrightarrow>
   attempts \<le> n \<and> n \<le> maxAttempts \<and>
   (\<exists>m. attempts \<le> m \<and> m \<le> n \<and>
        ds' = ds @ map (\<lambda>i. baseDelay i + jit i) [attempts + 1 ..< m + 1])"
proof (induction fetch jit maxAttempts attempts ds rule: pollLoop.induct)
  case (1 fetch jit maxAttempts attempts ds)
  note unfold = pollLoop.simps [of fetch jit maxAttempts attempts ds]
  show ?case
  proof (cases "attempts < maxAttempts")
    case False
    then have "pollLoop fetch jit maxAttempts attempts ds =
        (Inl (Error ''Veo operation timed out''), attempts, ds)"
      by (subst unfold) simp
    with "1.prems"(2) have "n = attempts" "ds' = ds" by simp_all
    then show ?thesis using "1.prems"(1) by (intro conjI exI [of _ attempts]) auto
  next
    case True
    show ?thesis
    proof (cases "fetch (attempts + 1)")
      case (FetchRejected e)
      with True "1.prems" have "n = attempts + 1" "ds' = ds" by (simp_all add: unfold)
      then show ?thesis using True by (intro conjI exI [of _ attempts]) auto
    next
      case (HttpNotOk status body)
      with True "1.prems" have "n = attempts + 1" "ds' = ds" by (simp_all add: unfold)
      then show ?thesis using True by (intro conjI exI [of _ attempts]) auto
    next
      case (HttpOk operation)
      show ?thesis
      proof (cases "op_done operation = Some True")
        case dn: True
        with True HttpOk "1.prems" have "n = attempts + 1" "ds' = ds"
          by (auto simp: unfold split: option.splits)
        then show ?thesis using True by (intro conjI exI [of _ attempts]) auto
      next
        case nd: False
        have rec: "pollLoop fetch jit maxAttempts (attempts + 1)
              (ds @ [baseDelay (attempts + 1) + jit (attempts + 1)]) = (res, n, ds')"
          using True HttpOk nd "1.prems"(2) by (simp add: unfold)
        have "attempts + 1 \<le> maxAttempts" using True by simp
        from "1.IH" [OF True HttpOk nd this rec]
        obtain m where m: "attempts + 1 \<le> n" "n \<le> maxAttempts" "attempts + 1 \<le> m" "m \<le> n"
          "ds' = (ds @ [baseDelay (attempts + 1) + jit (attempts + 1)]) @
                  map (\<lambda>i. baseDelay i + jit i) [attempts + 1 + 1 ..< m + 1]"
          by auto
        have "[attempts + 1 ..< m + 1] = (attempts + 1) # [attempts + 1 + 1 ..< m + 1]"
          using m(3) by (simp add: upt_conv_Cons)
        then have "ds' = ds @ map (\<lambda>i. baseDelay i + jit i) [attempts + 1 ..< m + 1]"
          using m(5) by simp
        with m show ?thesis
          by (intro conjI exI [of _ m]) auto
      qed
    qed
  qed
qed

lemma pollOperation_bounds:
  assumes "pollOperation fetch jit maxAttempts = (res, n, ds)"
  shows "n \<le> maxAttempts \<and> length ds \<le> n \<and>
         (\<forall>i < length ds. ds ! i = baseDelay (i + 1) + jit (i + 1))"
proof -
  from pollLoop_bounds [of 0 maxAttempts fetch jit "[]" res n ds] assms
  obtain m where m: "n \<le> maxAttempts" "m \<le> n"
      "ds = map (\<lambda>i. baseDelay i + jit i) [1 ..< m + 1]"
    by (auto simp: pollOperation_def)
  have "length ds = m" using m(3) by simp
  moreover have "ds ! i = baseDelay (i + 1) + jit (i + 1)" if "i < m" for i
    using that unfolding m(3) by (simp add: nth_map_upt del: upt_Suc)
  ultimately show ?thesis using m by auto
qed

text \<open>
  C5 (amended). pollOperation makes at most maxAttempts status queries before it returns
  or fails. The delay slept after the k-th query is
  min(1000 * 1.5^k, 30000) + jitter; its base part min(1000 * 1.5^k, 30000) is
  non-decreasing in k and never above 30000 ms, and with a jitter in [0, 1000) each
  delay lies between its base part and its base part plus 1000 ms. The delay itself,
  jitter included, need not be non-decreasing.
\<close>

theorem pollOperation_bounded_backoff:
  assumes "pollOperation fetch jit maxAttempts = (res, n, ds)"
    and "\<forall>k. 0 \<le> jit k \<and> jit k < 1000"
  shows "n \<le> maxAttempts \<and> length ds \<le> n \<and>
         (\<forall>i < length ds. ds ! i = baseDelay (i + 1) + jit (i + 1) \<and>
                           baseDelay (i + 1) \<le> ds ! i \<and> ds ! i < baseDelay (i + 1) + 1000) \<and>
         (\<forall>a b. a \<le> b \<longrightarrow> baseDelay a \<le> baseDelay b) \<and>
         (\<forall>a. baseDelay a = min (1000 * (3 / 2) ^ a) 30000 \<and> baseDelay a \<le> 30000)"
proof -
  from pollOperation_bounds [OF assms(1)]
  have b: "n \<le> maxAttempts" "length ds \<le> n"
    "\<forall>i < length ds. ds ! i = baseDelay (i + 1) + jit (i + 1)"
    by auto
  have "baseDelay (i + 1) \<le> ds ! i \<and> ds ! i < baseDelay (i + 1) + 1000" if "i < length ds" for i
  proof -
    have "ds ! i = baseDelay (i + 1) + jit (i + 1)" using b(3) that by simp
    moreover have "0 \<le> jit (i + 1)" "jit (i + 1) < 1000" using assms(2) by auto
    ultimately show ?thesis by simp
  qed
  then show ?thesis
    using b baseDelay_mono baseDelay_cap by (auto simp: baseDelay_def)
qed

lemma doneOnThird_poll:
  "pollOperation doneOnThird jitterEarly 60 = (Inr finishedOp, 3, [2400, 2250])"
  by code_simp

theorem pollOperation_bounded_backoff_witness:
  "pollOperation doneOnThird jitterEarly 60 = (Inr finishedOp, 3, [2400, 2250]) \<and>
   (3::nat) \<le> 60 \<and> length [2400, 2250 :: rat] \<le> 3 \<and>
   baseDelay 1 \<le> 2400 \<and> (2400::rat) < baseDelay 1 + 1000 \<and> baseDelay 1 \<le> baseDelay 2"
proof -
  have j: "\<forall>k. 0 \<le> jitterEarly k \<and> jitterEarly k < 1000"
    by (simp add: jitterEarly_def)
  note c = pollOperation_bounded_backoff [OF doneOnThird_poll j]
  from c have mono: "\<And>a b. a \<le> b \<Longrightarrow> baseDelay a \<le> baseDelay b" by blast
  from c have nth: "\<And>i. i < length [2400, 2250 :: rat] \<Longrightarrow>
      baseDelay (i + 1) \<le> [2400, 2250 :: rat] ! i \<and> [2400, 2250 :: rat] ! i < baseDelay (i + 1) + 1000"
    by blast
  have "baseDelay 1 \<le> baseDelay 2" by (rule mono) simp
  moreover have "baseDelay 1 \<le> 2400 \<and> (2400::rat) < baseDelay 1 + 1000"
    using nth [of 0] by simp
  ultimately show ?thesis using doneOnThird_poll by simp
qed

text \<open>
  C5 as stated fails: with a jitter of 900 ms after the first query and of 0 ms after
  the second, both within [0, 1000), the delays are 2400 ms and then 2250 ms.
\<close>

theorem jittered_delay_can_decrease:
  "jitterEarly 1 = 900 \<and> jitterEarly 2 = 0 \<and>
   snd (snd (pollOperation doneOnThird jitterEarly 60)) = [2400, 2250] \<and>
   (2250::rat) < 2400"
  by (simp add: doneOnThird_poll jitterEarly_def)

subsection \<open>A job that ends with an error payload\<close>

lemma pollLoop_reaches_error:
  assumes "a < k" "k \<le> maxAttempts"
    and "\<forall>j. a < j \<and> j < k \<longrightarrow> (\<exists>p. fetch j = HttpOk p \<and> op_done p \<noteq> Some True)"
    and "fetch k = HttpOk operation" "op_done operation = Some True"
    and "op_error operation = Some err"
  shows "fst (pollLoop fetch jit maxAttempts a ds) =
           Inl (Error (''Veo generation failed: '' @ message err)) \<and>
         fst (snd (pollLoop fetch jit maxAttempts a ds)) = k"
  using assms
proof (induction "k - a" arbitrary: a ds)
  case 0
  then show ?case by simp
next
  case (Suc d)
  note unfold = pollLoop.simps [of fetch jit maxAttempts a ds]
  have lt: "a < maxAttempts" using Suc.prems by simp
  show ?case
  proof (cases "a + 1 = k")
    case True
    then have "fetch (a + 1) = HttpOk operation" using Suc.prems by simp
    then show ?thesis using lt Suc.prems(5,6) True by (subst unfold, subst unfold) simp
  next
    case False
    then have l: "a + 1 < k" using Suc.prems(1) by simp
    then obtain p where p: "fetch (a + 1) = HttpOk p" "op_done p \<noteq> Some True"
      using Suc.prems(3) by auto
    have d: "d = k - (a + 1)" using Suc.hyps(2) by simp
    have rest: "\<forall>j. a + 1 < j \<and> j < k \<longrightarrow> (\<exists>p. fetch j = HttpOk p \<and> op_done p \<noteq> Some True)"
      using Suc.prems(3) by auto
    have "pollLoop fetch jit maxAttempts a ds =
        pollLoop fetch jit maxAttempts (a + 1) (ds @ [baseDelay (a + 1) + jit (a + 1)])"
      using lt p by (subst unfold) simp
    then show ?thesis
      using Suc.hyps(1) [OF d l Suc.prems(2) rest Suc.prems(4,5,6)] by simp
  qed
qed

lemma pollLoop_success_clean:
  "pollLoop fetch jit maxAttempts attempts ds = (Inr operation, n, ds') \<Longrightarrow>
   op_done operation = Some True \<and> op_error operation = None"
proof (induction fetch jit maxAttempts attempts ds rule: pollLoop.induct)
  case (1 fetch jit maxAttempts attempts ds)
  note unfold = pollLoop.simps [of fetch jit maxAttempts attempts ds]
  show ?case
  proof (cases "attempts < maxAttempts")
    case False
    then have "pollLoop fetch jit maxAttempts attempts ds =
        (Inl (Error ''Veo operation timed out''), attempts, ds)"
      by (subst unfold) simp
    with "1.prems" show ?thesis by simp
  next
    case True
    show ?thesis
    proof (cases "fetch (attempts + 1)")
      case (FetchRejected e)
      with True "1.prems" show ?thesis by (simp add: unfold)
    next
      case (HttpNotOk status body)
      with True "1.prems" show ?thesis by (simp add: unfold)
    next
      case (HttpOk p)
      show ?thesis
      proof (cases "op_done p = Some True")
        case dn: True
        with True HttpOk "1.prems" show ?thesis
          by (auto simp: unfold split: option.splits)
      next
        case nd: False
        have "pollLoop fetch jit maxAttempts (attempts + 1)
              (ds @ [baseDelay (attempts + 1) + jit (attempts + 1)]) = (Inr operation, n, ds')"
          using True HttpOk nd "1.prems" by (simp add: unfold)
        from "1.IH" [OF True HttpOk nd this] show ?thesis .
      qed
    qed
  qed
qed

text \<open>
  C7. When the service answers the k-th status query (k within the 60 attempts, the
  earlier queries answered "not done") with done = true and an error payload,
  generateClip fails with the error "Veo generation failed: " followed by the message
  of the service; it does not return a clip. Moreover the operation that pollOperation
  hands to processResult always has done = true and no error payload.
\<close>

theorem done_with_error_never_yields_clip:
  assumes "auth env = Inr token" and "submitResponse env 1 = HttpOk submitted"
    and "1 \<le> k" and "k \<le> 60"
    and "\<forall>j. 1 \<le> j \<and> j < k \<longrightarrow> (\<exists>p. pollResponse env j = HttpOk p \<and> op_done p \<noteq> Some True)"
    and "pollResponse env k = HttpOk operation" and "op_done operation = Some True"
    and "op_error operation = Some err"
  shows "fst (generateClip env params) =
           Inl (Error (''Veo generation failed: '' @ message err)) \<and>
         (\<forall>fetch jit maxAttempts result n ds.
            pollOperation fetch jit maxAttempts = (Inr result, n, ds) \<longrightarrow>
            op_done result = Some True \<and> op_error result = None)"
proof -
  have "\<forall>j. 0 < j \<and> j < k \<longrightarrow> (\<exists>p. pollResponse env j = HttpOk p \<and> op_done p \<noteq> Some True)"
    using assms(5) by auto
  from pollLoop_reaches_error [OF _ assms(4) this assms(6,7,8), of "jitter env" "[]"] assms(3)
  have "fst (pollOperation (pollResponse env) (jitter env) 60) =
      Inl (Error (''Veo generation failed: '' @ message err))"
    by (simp add: pollOperation_def)
  then have "fst (generateClip env params) =
      Inl (Error (''Veo generation failed: '' @ message err))"
    using assms(1,2) by (auto simp: generateClip_def split: prod.splits sum.splits)
  moreover have "op_done result = Some True \<and> op_error result = None"
    if "pollOperation fetch jit maxAttempts = (Inr result, n, ds)"
    for fetch jit maxAttempts result n ds
    using that unfolding pollOperation_def by (rule pollLoop_success_clean)
  ultimately show ?thesis by blast
qed

lemma failingEnv_clip:
  "generateClip failingEnv \<lparr> vp_duration = 4 \<rparr> =
     (Inl (Error ''Veo generation failed: internal error''),
      \<lparr> submissions = 1, polls = 2, delays = [1500] \<rparr>)"
  by code_simp

theorem done_with_error_never_yields_clip_witness:
  "fst (generateClip failingEnv \<lparr> vp_duration = 4 \<rparr>) =
     Inl (Error ''Veo generation failed: internal error'') \<and>
   polls (snd (generateClip failingEnv \<lparr> vp_duration = 4 \<rparr>)) = 2"
proof -
  have h1: "auth failingEnv = Inr ''token''" by (simp add: failingEnv_def)
  have h2: "submitResponse failingEnv 1 = HttpOk pendingOp" by (simp add: failingEnv_def)
  have h3: "\<forall>j. 1 \<le> j \<and> j < 2 \<longrightarrow>
      (\<exists>p. pollResponse failingEnv j = HttpOk p \<and> op_done p \<noteq> Some True)"
    by (auto simp: failingEnv_def pendingOp_def)
  have h4: "pollResponse failingEnv 2 = HttpOk failedOp" by (simp add: failingEnv_def)
  have h5: "op_done failedOp = Some True" by (simp add: failedOp_def)
  have h6: "op_error failedOp = Some \<lparr> code = 13, message = ''internal error'' \<rparr>"
    by (simp add: failedOp_def)
  from done_with_error_never_yields_clip
    [OF h1 h2 _ _ h3 h4 h5 h6, of "\<lparr> vp_duration = 4 \<rparr>"]
  have "fst (generateClip failingEnv \<lparr> vp_duration = 4 \<rparr>) =
      Inl (Error ''Veo generation failed: internal error'')"
    by simp
  then show ?thesis by (simp add: failingEnv_clip)
qed

subsection \<open>Submission and withRetry\<close>

lemma retryLoop_calls:
  "attempt \<le> maxRetries + 1 \<Longrightarrow>
   retryLoop operation jit maxRetries delay0 attempt lastError ds = (res, n, ds') \<Longrightarrow>
   n \<le> maxRetries"
proof (induction operation jit maxRetries delay0 attempt lastError ds rule: retryLoop.induct)
  case (1 operation jit maxRetries delay0 attempt lastError ds)
  note unfold = retryLoop.simps [of operation jit maxRetries delay0 attempt lastError ds]
  show ?case
  proof (cases "attempt \<le> maxRetries")
    case False
    then have "attempt = maxRetries + 1" using "1.prems"(1) by simp
    moreover have "n = attempt - 1"
      using False "1.prems"(2) by (subst (asm) unfold) (auto split: option.splits)
    ultimately show ?thesis by simp
  next
    case True
    show ?thesis
    proof (cases "operation attempt")
      case (Inr v)
      with True "1.prems"(2) have "n = attempt" by (subst (asm) unfold) simp
      then show ?thesis using True by simp
    next
      case (Inl e)
      show ?thesis
      proof (cases "nonRetryable e")
        case nr: True
        with True Inl "1.prems"(2) have "n = attempt" by (subst (asm) unfold) simp
        then show ?thesis using True by simp
      next
        case r: False
        show ?thesis
        proof (cases "attempt < maxRetries")
          case lt: True
          have "retryLoop operation jit maxRetries delay0 (attempt + 1) (Some e)
                  (ds @ [delay0 * 2 ^ (attempt - 1) + jit attempt]) = (res, n, ds')"
            using True Inl r lt "1.prems"(2) by (subst (asm) unfold) simp
          from "1.IH"(1) [OF True Inl r lt _ this] True show ?thesis by simp
        next
          case ge: False
          have "retryLoop operation jit maxRetries delay0 (attempt + 1) (Some e) ds = (res, n, ds')"
            using True Inl r ge "1.prems"(2) by (subst (asm) unfold) simp
          from "1.IH"(2) [OF True Inl r ge _ this] True show ?thesis by simp
        qed
      qed
    qed
  qed
qed

text \<open>withRetry calls the wrapped operation at most maxRetries times.\<close>

lemma withRetry_calls_bounded:
  "withRetry operation jit maxRetries delay0 = (res, n, ds) \<Longrightarrow> n \<le> maxRetries"
  unfolding withRetry_def by (rule retryLoop_calls [of 1]) auto

text \<open>An error of the quota, permission or invalid class is rethrown after one call.\<close>

lemma withRetry_non_retryable_once:
  "1 \<le> maxRetries \<Longrightarrow> operation 1 = Inl e \<Longrightarrow> nonRetryable e \<Longrightarrow>
   withRetry operation jit maxRetries delay0 = (Inl e, 1, [])"
  unfolding withRetry_def by (subst retryLoop.simps) simp

text \<open>A transient error is followed by a delay of delay0 plus jitter and a second call.\<close>

lemma withRetry_second_call:
  "2 \<le> maxRetries \<Longrightarrow> operation 1 = Inl e \<Longrightarrow> \<not> nonRetryable e \<Longrightarrow> operation 2 = Inr v \<Longrightarrow>
   withRetry operation jit maxRetries delay0 = (Inr v, 2, [delay0 + jit 1])"
  unfolding withRetry_def
  by (subst retryLoop.simps, subst retryLoop.simps) (simp add: numeral_2_eq_2)

text \<open>generateClip sends at most one submission request.\<close>

lemma generateClip_single_submission:
  "submissions (snd (generateClip env params)) \<le> 1"
  by (auto simp: generateClip_def split: sum.splits fetch_result.splits prod.splits)

text \<open>
  C6. The claim describes withRetry, but generateClip does not call it: the submission
  is a single request. When the service answers the first submission with status 503
  and would accept a second one, generateClip fails after one submission, while
  withRetry around the same submission would succeed on its second call after a delay
  of 1000 ms plus jitter.
\<close>

theorem submission_fails_without_retry:
  "generateClip busyOnceEnv \<lparr> vp_duration = 4 \<rparr> =
     (Inl (Error ''Veo API request failed: 503 Service Unavailable''),
      \<lparr> submissions = 1, polls = 0, delays = [] \<rparr>) \<and>
   withRetry (submitOnce busyOnceEnv) (jitter busyOnceEnv) 3 1000 = (Inr pendingOp, 2, [1000])"
proof -
  have "generateClip busyOnceEnv \<lparr> vp_duration = 4 \<rparr> =
     (Inl (Error ''Veo API request failed: 503 Service Unavailable''),
      \<lparr> submissions = 1, polls = 0, delays = [] \<rparr>)"
    by code_simp
  moreover have "withRetry (submitOnce busyOnceEnv) (jitter busyOnceEnv) 3 1000 =
      (Inr pendingOp, 2, [1000])"
    by code_simp
  ultimately show ?thesis by simp
qed

subsection \<open>Ken Burns validation\<close>

lemma buildFilter_valid:
  "validNumber (kb_duration params) \<Longrightarrow> validNumber (width params) \<Longrightarrow>
   validNumber (height params) \<Longrightarrow> validNumber (fps opts) \<Longrightarrow>
   \<exists>flt. buildFilter fmt opts params = Inr flt"
  by (simp add: buildFilter_def validNumber_def)

lemma buildFilter_invalid:
  assumes "\<not> (validNumber (kb_duration params) \<and> validNumber (width params) \<and>
              validNumber (height params) \<and> validNumber (fps opts))"
  shows "\<exists>e. buildFilter fmt opts params = Inl e \<and> isInvalidParameters e"
proof (cases "validNumber (kb_duration params)")
  case False
  then have "buildFilter fmt opts params =
      Inl (Error (''Invalid duration: '' @ fmt (kb_duration params) @
                  ''. Must be a positive finite number.''))"
    by (auto simp: buildFilter_def validNumber_def)
  then show ?thesis by (simp add: isInvalidParameters_def)
next
  case d: True
  show ?thesis
  proof (cases "validNumber (width params) \<and> validNumber (height params)")
    case False
    then have "buildFilter fmt opts params =
        Inl (Error (''Invalid dimensions: '' @ fmt (width params) @ ''x'' @
                    fmt (height params) @ ''. Must be positive finite numbers.''))"
      using d by (auto simp: buildFilter_def validNumber_def)
    then show ?thesis by (simp add: isInvalidParameters_def)
  next
    case True
    with d assms have "\<not> validNumber (fps opts)" by simp
    then have "buildFilter fmt opts params =
        Inl (Error (''Invalid fps: '' @ fmt (fps opts) @ ''. Must be a positive finite number.''))"
      using d True by (auto simp: buildFilter_def validNumber_def)
    then show ?thesis by (simp add: isInvalidParameters_def)
  qed
qed

text \<open>
  C8 (amended). If any of duration, width, height or frame rate is non-finite or
  non-positive, generateKenBurns fails before the encoder process is started; when the
  input image exists and the output directory can be created, the failure is the
  invalid-parameter error raised by buildFilter (when the image is missing it is the
  error "Input image not found" instead). Conversely, when all four are finite and
  positive the validation in buildFilter raises nothing.
\<close>

theorem invalid_parameters_fail_before_encoder:
  "(\<not> (validNumber (kb_duration params) \<and> validNumber (width params) \<and>
        validNumber (height params) \<and> validNumber (fps opts)) \<longrightarrow>
      (\<exists>e. generateKenBurns fmt opts env params = (Inl e, False) \<and>
           (imageExists env \<and> mkdirError env = None \<longrightarrow>
              isInvalidParameters e \<and> buildFilter fmt opts params = Inl e))) \<and>
   (validNumber (kb_duration params) \<and> validNumber (width params) \<and>
    validNumber (height params) \<and> validNumber (fps opts) \<longrightarrow>
      (\<exists>flt. buildFilter fmt opts params = Inr flt))"
proof (intro conjI impI)
  assume "\<not> (validNumber (kb_duration params) \<and> validNumber (width params) \<and>
        validNumber (height params) \<and> validNumber (fps opts))"
  from buildFilter_invalid [OF this, of fmt] obtain e where
    e: "buildFilter fmt opts params = Inl e" "isInvalidParameters e" by blast
  show "\<exists>e. generateKenBurns fmt opts env params = (Inl e, False) \<and>
           (imageExists env \<and> mkdirError env = None \<longrightarrow>
              isInvalidParameters e \<and> buildFilter fmt opts params = Inl e)"
    using e by (auto simp: generateKenBurns_def split: option.splits)
next
  assume "validNumber (kb_duration params) \<and> validNumber (width params) \<and>
    validNumber (height params) \<and> validNumber (fps opts)"
  then show "\<exists>flt. buildFilter fmt opts params = Inr flt"
    using buildFilter_valid by blast
qed

lemma zero_duration_result:
  "generateKenBurns showNumber fps24 imagePresentEnv zeroDurationParams =
     (Inl (Error ''Invalid duration: 0. Must be a positive finite number.''), False)"
  by code_simp

lemma six_second_filter:
  "buildFilter showNumber fps24 sixSecondParams =
     Inr ''scale=1920:1080:force_original_aspect_ratio=decrease,pad=1920:1080:(ow-iw)/2:(oh-ih)/2''"
  by code_simp

theorem invalid_parameters_fail_before_encoder_witness:
  "generateKenBurns showNumber fps24 imagePresentEnv zeroDurationParams =
     (Inl (Error ''Invalid duration: 0. Must be a positive finite number.''), False) \<and>
   isInvalidParameters (Error ''Invalid duration: 0. Must be a positive finite number.'') \<and>
   (\<exists>flt. buildFilter showNumber fps24 sixSecondParams = Inr flt)"
proof -
  have bad: "\<not> (validNumber (kb_duration zeroDurationParams) \<and>
      validNumber (width zeroDurationParams) \<and> validNumber (height zeroDurationParams) \<and>
      validNumber (fps fps24))"
    by (simp add: zeroDurationParams_def validNumber_def isFinite_def leZero_def)
  have good: "validNumber (kb_duration sixSecondParams) \<and>
      validNumber (width sixSecondParams) \<and> validNumber (height sixSecondParams) \<and>
      validNumber (fps fps24)"
    by (simp add: sixSecondParams_def fps24_def validNumber_def isFinite_def leZero_def)
  have env: "imageExists imagePresentEnv \<and> mkdirError imagePresentEnv = None"
    by (simp add: imagePresentEnv_def)
  note t1 = invalid_parameters_fail_before_encoder
    [of zeroDurationParams fps24 showNumber imagePresentEnv]
  note t2 = invalid_parameters_fail_before_encoder
    [of sixSecondParams fps24 showNumber imagePresentEnv]
  from t1 bad obtain e where
    e: "generateKenBurns showNumber fps24 imagePresentEnv zeroDurationParams = (Inl e, False)"
       "imageExists imagePresentEnv \<and> mkdirError imagePresentEnv = None \<longrightarrow>
          isInvalidParameters e \<and> buildFilter showNumber fps24 zeroDurationParams = Inl e"
    by blast
  from e(1) zero_duration_result
  have "e = Error ''Invalid duration: 0. Must be a positive finite number.''" by simp
  moreover from e(2) env have "isInvalidParameters e" by blast
  moreover from t2 good have "\<exists>flt. buildFilter showNumber fps24 sixSecondParams = Inr flt"
    by blast
  ultimately show ?thesis using zero_duration_result by simp
qed

text \<open>
  C8 as stated fails: a request with duration 0 whose input image does not exist fails
  with "Input image not found", not with an invalid-parameter error (still before the
  encoder is started).
\<close>

theorem missing_image_reported_before_invalid_duration:
  "\<not> validNumber (kb_duration zeroDurationParams) \<and>
   generateKenBurns showNumber fps24 imageMissingEnv zeroDurationParams =
     (Inl (Error ''Input image not found: photo.jpg''), False) \<and>
   \<not> isInvalidParameters (Error ''Input image not found: photo.jpg'')"
proof -
  have "\<not> validNumber (kb_duration zeroDurationParams)"
    by (simp add: zeroDurationParams_def validNumber_def isFinite_def leZero_def)
  moreover have "generateKenBurns showNumber fps24 imageMissingEnv zeroDurationParams =
     (Inl (Error ''Input image not found: photo.jpg''), False)"
    by code_simp
  moreover have "\<not> isInvalidParameters (Error ''Input image not found: photo.jpg'')"
    by (simp add: isInvalidParameters_def)
  ultimately show ?thesis by blast
qed

subsection \<open>Audio handling\<close>





lemma two_track_filter:
  "buildAudioMixFilter [voiceTrack, musicTrack] =
     [Chain 0 [], Chain 1 [VolumeOp (3 / 25), AdelayOp 1500 1500], Amix 2 ''longest'']"
  by code_simp


end
